theory Spec2Isabelle
  imports Main "HOL-Library.Multiset"
begin

section \<open>Python strings\<close>

text \<open>
  A Python \<^verbatim>\<open>str\<close> is a sequence of Unicode code points, so it is modelled as a list
  of natural numbers (the code points). ASCII literals of the source are written with
  \<open>asc\<close>; characters that are awkward to quote are written as their code point
  (34 is the double quote, 92 the backslash, 10 the line feed, 13 the carriage return).
\<close>

type_synonym pystr = "nat list"

definition asc :: "string \<Rightarrow> pystr" where
  "asc cs = map of_char cs"

text \<open>\<^verbatim>\<open>str.isspace\<close> of CPython: the code points with the Unicode White\_Space
  property or bidirectional type WS, B or S.\<close>

definition py_isspace :: "nat \<Rightarrow> bool" where
  "py_isspace c =
     ((9 \<le> c \<and> c \<le> 13) \<or> (28 \<le> c \<and> c \<le> 32) \<or> c = 133 \<or> c = 160 \<or> c = 5760 \<or>
      (8192 \<le> c \<and> c \<le> 8202) \<or> c = 8232 \<or> c = 8233 \<or> c = 8239 \<or> c = 8287 \<or>
      c = 12288)"

definition py_strip :: "pystr \<Rightarrow> pystr" where
  "py_strip s = rev (dropWhile py_isspace (rev (dropWhile py_isspace s)))"

section \<open>The json module: values, \<^verbatim>\<open>json.dumps\<close>, \<^verbatim>\<open>json.loads\<close>\<close>

text \<open>
  The relay serialises each record with \<^verbatim>\<open>json.dumps\<close> and parses each log line with
  \<^verbatim>\<open>json.loads\<close>. Both are modelled as executable functions following CPython's
  \<^verbatim>\<open>json.encoder\<close> and \<^verbatim>\<open>json.decoder\<close>/\<^verbatim>\<open>json.scanner\<close> (default options:
  \<^verbatim>\<open>ensure_ascii=True\<close>, separators \<^verbatim>\<open>", "\<close> and \<^verbatim>\<open>": "\<close>, \<^verbatim>\<open>strict=True\<close>).
  A number keeps its lexeme: no claim depends on its numeric value. An object keeps its
  members in source order; a lookup takes the last member of a key, as the dictionary
  built by the decoder does. The interpreter's recursion limit and integer-digit limit
  are outside the model.
\<close>

datatype json =
    JNull
  | JBool bool
  | JNumber pystr
  | JString pystr
  | JArray "json list"
  | JObject "(pystr \<times> json) list"

datatype exn = JSONDecodeError | AttributeError | TypeError | KeyError pystr

subsection \<open>Encoding\<close>

definition hex_digit :: "nat \<Rightarrow> nat" where
  "hex_digit d = (if d < 10 then 48 + d else 87 + d)"

text \<open>The format \<^verbatim>\<open>'{0:04x}'\<close> for a number below \<open>0x10000\<close>.\<close>

definition hex4 :: "nat \<Rightarrow> pystr" where
  "hex4 n = [hex_digit (n div 4096 mod 16), hex_digit (n div 256 mod 16),
             hex_digit (n div 16 mod 16), hex_digit (n mod 16)]"

text \<open>
  \<^verbatim>\<open>py_encode_basestring_ascii\<close>: every character matched by \<^verbatim>\<open>([\\"]|[^\ -~])\<close> is
  replaced, by its entry of \<^verbatim>\<open>ESCAPE_DCT\<close> or by a \<^verbatim>\<open>\uXXXX\<close> escape (a surrogate pair
  above the basic plane; \<^verbatim>\<open>0xd800 | x\<close> and \<^verbatim>\<open>0xdc00 | x\<close> with \<open>x < 0x400\<close> are sums).
\<close>

definition escape_char :: "nat \<Rightarrow> pystr" where
  "escape_char c =
     (if c = 92 then [92, 92]
      else if c = 34 then [92, 34]
      else if c = 8 then [92, 98]
      else if c = 12 then [92, 102]
      else if c = 10 then [92, 110]
      else if c = 13 then [92, 114]
      else if c = 9 then [92, 116]
      else if 32 \<le> c \<and> c \<le> 126 then [c]
      else if c < 65536 then 92 # 117 # hex4 c
      else (let n = c - 65536 in
            92 # 117 # hex4 (55296 + n div 1024 mod 1024) @
            92 # 117 # hex4 (56320 + n mod 1024)))"

definition dumps_str :: "pystr \<Rightarrow> pystr" where
  "dumps_str s = 34 # concat (map escape_char s) @ [34]"

text \<open>\<^verbatim>\<open>json.dumps\<close> of a dictionary whose keys and values are strings, in insertion
  order.\<close>

fun dumps_items :: "(pystr \<times> pystr) list \<Rightarrow> pystr" where
  "dumps_items [] = []"
| "dumps_items [(k, v)] = dumps_str k @ [58, 32] @ dumps_str v"
| "dumps_items ((k, v) # kvs) = dumps_str k @ [58, 32] @ dumps_str v @ [44, 32] @ dumps_items kvs"

definition json_dumps :: "(pystr \<times> pystr) list \<Rightarrow> pystr" where
  "json_dumps d = 123 # dumps_items d @ [125]"

subsection \<open>Decoding: the scanner\<close>

datatype token =
    TLBrace | TRBrace | TLBrack | TRBrack | TColon | TComma
  | TStr pystr | TNum pystr | TTrue | TFalse | TNull

definition json_ws :: "nat \<Rightarrow> bool" where
  "json_ws c = (c = 32 \<or> c = 9 \<or> c = 10 \<or> c = 13)"

definition is_digit :: "nat \<Rightarrow> bool" where
  "is_digit c = (48 \<le> c \<and> c \<le> 57)"

definition hex_val :: "nat \<Rightarrow> nat option" where
  "hex_val c =
     (if 48 \<le> c \<and> c \<le> 57 then Some (c - 48)
      else if 97 \<le> c \<and> c \<le> 102 then Some (c - 87)
      else if 65 \<le> c \<and> c \<le> 70 then Some (c - 55)
      else None)"

fun hex4_val :: "pystr \<Rightarrow> nat option" where
  "hex4_val [a, b, c, d] =
     (case (hex_val a, hex_val b, hex_val c, hex_val d) of
        (Some x, Some y, Some z, Some w) \<Rightarrow> Some (((x * 16 + y) * 16 + z) * 16 + w)
      | _ \<Rightarrow> None)"
| "hex4_val _ = None"

text \<open>
  The text after \<^verbatim>\<open>\u\<close>: four hexadecimal digits; a high surrogate that is followed by
  the escape of a low surrogate is joined with it. The result is the code point and the
  number of characters read.
\<close>

definition decode_u :: "pystr \<Rightarrow> (nat \<times> nat) option" where
  "decode_u es =
     (case hex4_val (take 4 es) of
        None \<Rightarrow> None
      | Some u \<Rightarrow>
          if 55296 \<le> u \<and> u \<le> 56319 \<and> take 2 (drop 4 es) = [92, 117] then
            (case hex4_val (take 4 (drop 6 es)) of
               None \<Rightarrow> None
             | Some u2 \<Rightarrow>
                 if 56320 \<le> u2 \<and> u2 \<le> 57343
                 then Some (65536 + (u - 55296) * 1024 + (u2 - 56320), 10)
                 else Some (u, 4))
          else Some (u, 4))"

text \<open>The table \<^verbatim>\<open>BACKSLASH\<close> of the decoder.\<close>

definition unescape :: "nat \<Rightarrow> nat option" where
  "unescape e =
     (if e = 34 then Some 34
      else if e = 92 then Some 92
      else if e = 47 then Some 47
      else if e = 98 then Some 8
      else if e = 102 then Some 12
      else if e = 110 then Some 10
      else if e = 114 then Some 13
      else if e = 116 then Some 9
      else None)"

text \<open>\<^verbatim>\<open>scanstring\<close>, started after the opening quote: the decoded string and the text
  after the closing quote.\<close>

fun scanstring :: "pystr \<Rightarrow> (pystr \<times> pystr) option" where
  "scanstring [] = None"
| "scanstring (c # cs) =
     (if c = 34 then Some ([], cs)
      else if c = 92 then
        (case cs of
           [] \<Rightarrow> None
         | e # es \<Rightarrow>
             if e = 117 then
               (case decode_u es of
                  None \<Rightarrow> None
                | Some (u, n) \<Rightarrow> map_option (\<lambda>(s, r). (u # s, r)) (scanstring (drop n es)))
             else
               (case unescape e of
                  None \<Rightarrow> None
                | Some x \<Rightarrow> map_option (\<lambda>(s, r). (x # s, r)) (scanstring es)))
      else if c \<le> 31 then None
      else map_option (\<lambda>(s, r). (c # s, r)) (scanstring cs))"

text \<open>
  \<^verbatim>\<open>NUMBER_RE\<close>, \<^verbatim>\<open>(-?(?:0|[1-9][0-9]*))(\.[0-9]+)?([eE][-+]?[0-9]+)?\<close>: the length of
  the match at the start of the text, if there is one.
\<close>

definition int_part_len :: "pystr \<Rightarrow> nat option" where
  "int_part_len s =
     (case s of
        [] \<Rightarrow> None
      | d # ds \<Rightarrow>
          if d = 48 then Some 1
          else if 49 \<le> d \<and> d \<le> 57 then Some (1 + length (takeWhile is_digit ds))
          else None)"

definition frac_len :: "pystr \<Rightarrow> nat" where
  "frac_len s =
     (case s of
        [] \<Rightarrow> 0
      | d # ds \<Rightarrow>
          if d = 46 \<and> takeWhile is_digit ds \<noteq> [] then 1 + length (takeWhile is_digit ds)
          else 0)"

definition exp_len :: "pystr \<Rightarrow> nat" where
  "exp_len s =
     (case s of
        [] \<Rightarrow> 0
      | e # es \<Rightarrow>
          if e = 101 \<or> e = 69 then
            (let k = (case es of [] \<Rightarrow> 0 | g # _ \<Rightarrow> if g = 45 \<or> g = 43 then 1 else 0);
                 ds = takeWhile is_digit (drop k es)
             in if ds \<noteq> [] then 1 + k + length ds else 0)
          else 0)"

definition match_number :: "pystr \<Rightarrow> nat option" where
  "match_number s =
     (let k = (case s of [] \<Rightarrow> 0 | c # _ \<Rightarrow> if c = 45 then 1 else (0::nat)) in
      case int_part_len (drop k s) of
        None \<Rightarrow> None
      | Some i \<Rightarrow>
          let f = frac_len (drop (k + i) s);
              e = exp_len (drop (k + i + f) s)
          in Some (k + i + f + e))"

lemma scanstring_shorter: "scanstring cs = Some (s, r) \<Longrightarrow> length r < length cs"
proof (induction cs arbitrary: s r rule: scanstring.induct)
  case 1
  then show ?case by simp
next
  case (2 c cs)
  show ?case
  proof (cases "c = 34")
    case True
    with "2.prems" show ?thesis by simp
  next
    case c34: False
    show ?thesis
    proof (cases "c = 92")
      case True
      show ?thesis
      proof (cases cs)
        case Nil
        with "2.prems" True show ?thesis by simp
      next
        case (Cons e es)
        show ?thesis
        proof (cases "e = 117")
          case e117: True
          from "2.prems" True Cons e117 obtain u n s' where
            du: "decode_u es = Some (u, n)" and rec: "scanstring (drop n es) = Some (s', r)"
            by (auto split: option.splits)
          from "2.IH"(1)[OF c34 True Cons e117 du refl rec]
          have "length r < length (drop n es)" .
          with Cons show ?thesis by simp
        next
          case False
          from "2.prems" True Cons False obtain x s' where
            ux: "unescape e = Some x" and rec: "scanstring es = Some (s', r)"
            by (auto split: option.splits)
          from "2.IH"(2)[OF c34 True Cons False ux rec]
          have "length r < length es" .
          with Cons show ?thesis by simp
        qed
      qed
    next
      case False
      from "2.prems" c34 False obtain s' where
        c31: "\<not> c \<le> 31" and rec: "scanstring cs = Some (s', r)"
        by (auto split: if_splits)
      from "2.IH"(3)[OF c34 False c31 rec] show ?thesis by simp
    qed
  qed
qed

text \<open>
  The scanner's tokens. The decoder skips the whitespace \<^verbatim>\<open>[ \t\n\r]*\<close> before and
  after every token; a literal is recognised by its first character and its spelling;
  the number pattern is tried before \<^verbatim>\<open>NaN\<close>, \<^verbatim>\<open>Infinity\<close> and \<^verbatim>\<open>-Infinity\<close>.
\<close>

function tokenize :: "pystr \<Rightarrow> token list option" where
  "tokenize [] = Some []"
| "tokenize (c # cs) =
     (if json_ws c then tokenize cs
      else if c = 123 then map_option (Cons TLBrace) (tokenize cs)
      else if c = 125 then map_option (Cons TRBrace) (tokenize cs)
      else if c = 91 then map_option (Cons TLBrack) (tokenize cs)
      else if c = 93 then map_option (Cons TRBrack) (tokenize cs)
      else if c = 58 then map_option (Cons TColon) (tokenize cs)
      else if c = 44 then map_option (Cons TComma) (tokenize cs)
      else if c = 34 then
        (case scanstring cs of
           None \<Rightarrow> None
         | Some (s, rest) \<Rightarrow> map_option (Cons (TStr s)) (tokenize rest))
      else if take 4 (c # cs) = asc ''null'' then map_option (Cons TNull) (tokenize (drop 3 cs))
      else if take 4 (c # cs) = asc ''true'' then map_option (Cons TTrue) (tokenize (drop 3 cs))
      else if take 5 (c # cs) = asc ''false'' then map_option (Cons TFalse) (tokenize (drop 4 cs))
      else
        (case match_number (c # cs) of
           Some n \<Rightarrow> map_option (Cons (TNum (take n (c # cs)))) (tokenize (drop (n - 1) cs))
         | None \<Rightarrow>
             if take 3 (c # cs) = asc ''NaN''
             then map_option (Cons (TNum (asc ''NaN''))) (tokenize (drop 2 cs))
             else if take 8 (c # cs) = asc ''Infinity''
             then map_option (Cons (TNum (asc ''Infinity''))) (tokenize (drop 7 cs))
             else if take 9 (c # cs) = asc ''-Infinity''
             then map_option (Cons (TNum (asc ''-Infinity''))) (tokenize (drop 8 cs))
             else None))"
  by pat_completeness auto
termination
proof (relation "measure length")
  fix c cs x2 s rest
  assume "scanstring cs = Some x2" and "(s, rest) = x2"
  then have "scanstring cs = Some (s, rest)" by simp
  from scanstring_shorter[OF this] show "(rest, c # cs) \<in> measure length" by simp
qed auto

subsection \<open>Decoding: the grammar\<close>

text \<open>
  The decoder's recursive descent over values, arrays and objects, written as a
  pushdown automaton over the tokens: a frame per open array or object, and a mode that
  says what may come next. A trailing comma, a missing colon, a key that is not a
  string and text after the value are all rejected, as by \<^verbatim>\<open>JSONArray\<close>,
  \<^verbatim>\<open>JSONObject\<close> and \<^verbatim>\<open>JSONDecoder.decode\<close>.
\<close>

datatype frame =
    FArr "json list"
  | FObj "(pystr \<times> json) list"
  | FKey "(pystr \<times> json) list" pystr

datatype mode = MValue | MFirstValue | MFirstKey | MKey | MColon | MNext | MDone json

fun deliver :: "json \<Rightarrow> frame list \<Rightarrow> (mode \<times> frame list) option" where
  "deliver v [] = Some (MDone v, [])"
| "deliver v (FArr xs # st) = Some (MNext, FArr (v # xs) # st)"
| "deliver v (FKey ps k # st) = Some (MNext, FObj ((k, v) # ps) # st)"
| "deliver v (FObj ps # st) = None"

fun start_value :: "token \<Rightarrow> frame list \<Rightarrow> (mode \<times> frame list) option" where
  "start_value (TStr s) st = deliver (JString s) st"
| "start_value (TNum n) st = deliver (JNumber n) st"
| "start_value TTrue st = deliver (JBool True) st"
| "start_value TFalse st = deliver (JBool False) st"
| "start_value TNull st = deliver JNull st"
| "start_value TLBrack st = Some (MFirstValue, FArr [] # st)"
| "start_value TLBrace st = Some (MFirstKey, FObj [] # st)"
| "start_value _ st = None"

fun start_key :: "token \<Rightarrow> frame list \<Rightarrow> (mode \<times> frame list) option" where
  "start_key (TStr k) (FObj ps # st) = Some (MColon, FKey ps k # st)"
| "start_key _ _ = None"

fun step :: "mode \<Rightarrow> frame list \<Rightarrow> token \<Rightarrow> (mode \<times> frame list) option" where
  "step MValue st t = start_value t st"
| "step MFirstValue (FArr xs # st) TRBrack = deliver (JArray (rev xs)) st"
| "step MFirstValue st t = start_value t st"
| "step MFirstKey (FObj ps # st) TRBrace = deliver (JObject (rev ps)) st"
| "step MFirstKey st t = start_key t st"
| "step MKey st t = start_key t st"
| "step MColon st TColon = Some (MValue, st)"
| "step MNext (FArr xs # st) TComma = Some (MValue, FArr xs # st)"
| "step MNext (FArr xs # st) TRBrack = deliver (JArray (rev xs)) st"
| "step MNext (FObj ps # st) TComma = Some (MKey, FObj ps # st)"
| "step MNext (FObj ps # st) TRBrace = deliver (JObject (rev ps)) st"
| "step _ _ _ = None"

fun parse_tokens :: "mode \<Rightarrow> frame list \<Rightarrow> token list \<Rightarrow> json option" where
  "parse_tokens (MDone v) st [] = Some v"
| "parse_tokens m st [] = None"
| "parse_tokens m st (t # ts) =
     (case step m st t of
        None \<Rightarrow> None
      | Some (m', st') \<Rightarrow> parse_tokens m' st' ts)"

definition json_loads :: "pystr \<Rightarrow> exn + json" where
  "json_loads s =
     (case tokenize s of
        None \<Rightarrow> Inl JSONDecodeError
      | Some ts \<Rightarrow>
          (case parse_tokens MValue [] ts of
             None \<Rightarrow> Inl JSONDecodeError
           | Some v \<Rightarrow> Inr v))"

section \<open>The log file\<close>

text \<open>
  The relay's whole state is the file \<^verbatim>\<open>.agent-comm/messages.jsonl\<close>: \<open>None\<close> when it
  does not exist, else its text (the file decoded as UTF-8; a file that does not decode
  is outside the model, the directory \<^verbatim>\<open>.agent-comm\<close> exists, and the line separator
  of the platform is the line feed).
  Opening with mode \<^verbatim>\<open>"w"\<close> truncates the file in place, at once. What is written
  through a handle opened with \<^verbatim>\<open>"a"\<close> or \<^verbatim>\<open>"w"\<close> is buffered and reaches the end of
  the file when the buffer is flushed, at the latest when the \<^verbatim>\<open>with\<close> block closes the
  file: \<open>Write\<close> is that flush. A text longer than the buffer reaches the file in
  several pieces; the model has them as the one write, so the states it shows are states
  of the file, though not all of them.
\<close>

type_synonym log = "pystr option"

datatype fs_op = Truncate | Write pystr

fun apply_op :: "fs_op \<Rightarrow> log \<Rightarrow> log" where
  "apply_op Truncate f = Some []"
| "apply_op (Write s) None = Some s"
| "apply_op (Write s) (Some t) = Some (t @ s)"

definition run_ops :: "fs_op list \<Rightarrow> log \<Rightarrow> log" where
  "run_ops ops f = fold apply_op ops f"

text \<open>
  Reading in text mode with universal newlines: \<^verbatim>\<open>\r\n\<close> and a lone \<^verbatim>\<open>\r\<close> are read as
  \<^verbatim>\<open>\n\<close>, and iterating over the file yields the lines, each with its line feed (the
  last one without, when the file does not end in one).
\<close>

fun universal_newlines :: "pystr \<Rightarrow> pystr" where
  "universal_newlines [] = []"
| "universal_newlines [c] = [if c = 13 then 10 else c]"
| "universal_newlines (c # d # cs) =
     (if c = 13 then
        (if d = 10 then 10 # universal_newlines cs else 10 # universal_newlines (d # cs))
      else c # universal_newlines (d # cs))"

fun split_lines :: "pystr \<Rightarrow> pystr list" where
  "split_lines [] = []"
| "split_lines (c # cs) =
     (if c = 10 then [10] # split_lines cs
      else (case split_lines cs of [] \<Rightarrow> [[c]] | l # ls \<Rightarrow> (c # l) # ls))"

definition readlines :: "pystr \<Rightarrow> pystr list" where
  "readlines text = split_lines (universal_newlines text)"

section \<open>The relay: \<^verbatim>\<open>send_message\<close> and \<^verbatim>\<open>get_new_messages\<close>\<close>

definition valid_agents :: "pystr list" where
  "valid_agents = [asc ''trae'', asc ''kilo'', asc ''grok'']"

text \<open>The two strings \<^verbatim>\<open>send_message\<close> returns, as the source file stores them.\<close>

definition send_error :: pystr where
  "send_error =
     asc ''ERROR: to must be '' @ [39] @ asc ''trae'' @ [39] @ asc '', '' @ [39] @
     asc ''kilo'' @ [39] @ asc '', or '' @ [39] @ asc ''grok'' @ [39]"

definition send_confirmation :: "pystr \<Rightarrow> pystr \<Rightarrow> pystr" where
  "send_confirmation to session =
     [8218, 250, 214] @ asc '' Message sent to '' @ to @ asc '' (session: '' @ session @
     asc '')''"

text \<open>
  \<^verbatim>\<open>send_message(to, content, session)\<close>. The reading of the clock,
  \<^verbatim>\<open>datetime.now().isoformat()\<close>, is the argument \<open>now\<close>. The result is the returned
  string and the log after the call.
\<close>

definition send_message :: "pystr \<Rightarrow> pystr \<Rightarrow> pystr \<Rightarrow> pystr \<Rightarrow> log \<Rightarrow> pystr \<times> log" where
  "send_message to content session now f =
     (if to \<notin> set valid_agents then (send_error, f)
      else
        let msg = [(asc ''timestamp'', now), (asc ''from'', asc ''other''), (asc ''to'', to),
                   (asc ''session'', session), (asc ''content'', content)]
        in (send_confirmation to session, run_ops [Write (json_dumps msg @ [10])] f))"

text \<open>The dictionary \<^verbatim>\<open>get_new_messages\<close> builds for each message it returns.\<close>

record message =
  msg_from :: pystr
  msg_content :: json
  msg_timestamp :: json

text \<open>\<^verbatim>\<open>msg.get(k)\<close> and \<^verbatim>\<open>msg[k]\<close> on a decoded value: only an object has \<^verbatim>\<open>get\<close>, and a
  key that is absent raises \<^verbatim>\<open>KeyError\<close>.\<close>

fun py_get :: "json \<Rightarrow> pystr \<Rightarrow> exn + json option" where
  "py_get (JObject ps) k = Inr (map_of (rev ps) k)"
| "py_get _ k = Inl AttributeError"

fun py_getitem :: "json \<Rightarrow> pystr \<Rightarrow> exn + json" where
  "py_getitem (JObject ps) k =
     (case map_of (rev ps) k of None \<Rightarrow> Inl (KeyError k) | Some v \<Rightarrow> Inr v)"
| "py_getitem _ k = Inl TypeError"

text \<open>The body of the loop over the lines of the log, for one line.\<close>

definition scan_line ::
  "pystr \<Rightarrow> pystr \<Rightarrow> pystr \<Rightarrow> message list \<Rightarrow> pystr list \<Rightarrow> exn + (message list \<times> pystr list)"
where
  "scan_line for_agent session line messages new_lines =
     (if py_strip line = [] then Inr (messages, new_lines)
      else
        (case json_loads line of
           Inl e \<Rightarrow>
             if e = JSONDecodeError then Inr (messages, new_lines @ [line]) else Inl e
         | Inr msg \<Rightarrow>
             (case py_get msg (asc ''to'') of
                Inl e \<Rightarrow> Inl e
              | Inr to_v \<Rightarrow>
                  if to_v = Some (JString for_agent) then
                    (case py_get msg (asc ''session'') of
                       Inl e \<Rightarrow> Inl e
                     | Inr session_v \<Rightarrow>
                         if session_v = Some (JString session) then
                           (case py_getitem msg (asc ''content'') of
                              Inl e \<Rightarrow> Inl e
                            | Inr c \<Rightarrow>
                                (case py_getitem msg (asc ''timestamp'') of
                                   Inl e \<Rightarrow> Inl e
                                 | Inr t \<Rightarrow>
                                     Inr (messages @
                                            [\<lparr>msg_from = asc ''the-other-agent'',
                                              msg_content = c, msg_timestamp = t\<rparr>],
                                          new_lines)))
                         else Inr (messages, new_lines @ [line]))
                  else Inr (messages, new_lines @ [line]))))"

fun scan_lines ::
  "pystr \<Rightarrow> pystr \<Rightarrow> pystr list \<Rightarrow> message list \<Rightarrow> pystr list \<Rightarrow>
   exn + (message list \<times> pystr list)"
where
  "scan_lines for_agent session [] messages new_lines = Inr (messages, new_lines)"
| "scan_lines for_agent session (line # rest) messages new_lines =
     (case scan_line for_agent session line messages new_lines of
        Inl e \<Rightarrow> Inl e
      | Inr (messages', new_lines') \<Rightarrow> scan_lines for_agent session rest messages' new_lines')"

text \<open>The slice \<^verbatim>\<open>xs[start:]\<close>: a negative start counts from the end, and both ends are
  clipped to the list.\<close>

definition py_slice_from :: "int \<Rightarrow> 'a list \<Rightarrow> 'a list" where
  "py_slice_from start xs =
     (let n = int (length xs);
          i = (if start < 0 then max (n + start) 0 else min start n)
      in drop (nat i) xs)"

text \<open>The rewrite of the log: \<^verbatim>\<open>open(COMM_FILE, "w")\<close> truncates it, and the lines given
  to \<^verbatim>\<open>f.writelines(new_lines)\<close> reach it when the block closes the file.\<close>

definition rewrite_ops :: "pystr list \<Rightarrow> fs_op list" where
  "rewrite_ops new_lines = [Truncate, Write (concat new_lines)]"

text \<open>
  \<^verbatim>\<open>get_new_messages(for_agent, session, limit)\<close>: the returned list, or the exception
  that leaves the function, and the log after the call. An exception in the loop leaves
  the function before the log is opened for writing.
\<close>

definition get_new_messages ::
  "pystr \<Rightarrow> pystr \<Rightarrow> int \<Rightarrow> log \<Rightarrow> (exn + message list) \<times> log"
where
  "get_new_messages for_agent session limit f =
     (if for_agent \<notin> set valid_agents then (Inr [], f)
      else
        (case f of
           None \<Rightarrow> (Inr [], f)
         | Some text \<Rightarrow>
             (case scan_lines for_agent session (readlines text) [] [] of
                Inl e \<Rightarrow> (Inl e, f)
              | Inr (messages, new_lines) \<Rightarrow>
                  (Inr (if messages \<noteq> [] then py_slice_from (- limit) messages else []),
                   run_ops (rewrite_ops new_lines) f))))"

text \<open>The operations on the file that a call of \<^verbatim>\<open>get_new_messages\<close> performs: none when
  it returns early or raises, else the rewrite.\<close>

definition receive_ops :: "pystr \<Rightarrow> pystr \<Rightarrow> log \<Rightarrow> fs_op list" where
  "receive_ops for_agent session f =
     (if for_agent \<notin> set valid_agents then []
      else
        (case f of
           None \<Rightarrow> []
         | Some text \<Rightarrow>
             (case scan_lines for_agent session (readlines text) [] [] of
                Inl e \<Rightarrow> []
              | Inr (messages, new_lines) \<Rightarrow> rewrite_ops new_lines)))"



section \<open>Vocabulary for the properties\<close>

text \<open>
  The kinds of line the loop distinguishes: a blank line is skipped; a line is kept for
  \<open>(a, s)\<close> when the body of the loop appends it to \<^verbatim>\<open>new_lines\<close>; the messages a line
  yields for \<open>(a, s)\<close> are those the body appends to \<^verbatim>\<open>messages\<close>. A malformed line is a
  line that is not blank and that \<^verbatim>\<open>json.loads\<close> rejects.
\<close>

definition blank :: "pystr \<Rightarrow> bool" where
  "blank l = (py_strip l = [])"


definition keeps :: "pystr \<Rightarrow> pystr \<Rightarrow> pystr \<Rightarrow> bool" where
  "keeps a s l = (scan_line a s l [] [] = Inr ([], [l]))"

definition yield :: "pystr \<Rightarrow> pystr \<Rightarrow> pystr \<Rightarrow> message list" where
  "yield a s l = (case scan_line a s l [] [] of Inl e \<Rightarrow> [] | Inr (ms, ns) \<Rightarrow> ms)"

fun log_lines :: "log \<Rightarrow> pystr list" where
  "log_lines None = []"
| "log_lines (Some text) = readlines text"

text \<open>
  The lines that iterating over a file yields: every line but the last ends in its only
  line feed, the last one may lack it, and none holds a carriage return.
\<close>

definition full_line :: "pystr \<Rightarrow> bool" where
  "full_line l = (l \<noteq> [] \<and> last l = 10 \<and> 10 \<notin> set (butlast l) \<and> 13 \<notin> set l)"

definition part_line :: "pystr \<Rightarrow> bool" where
  "part_line l = (l \<noteq> [] \<and> 10 \<notin> set l \<and> 13 \<notin> set l)"

fun lines_ok :: "pystr list \<Rightarrow> bool" where
  "lines_ok [] = True"
| "lines_ok [l] = (full_line l \<or> part_line l)"
| "lines_ok (l # ls) = (full_line l \<and> lines_ok ls)"

text \<open>
  A line is addressed to \<open>(a, s)\<close> when it is not blank and parses to an object whose
  \<^verbatim>\<open>"to"\<close> is \<open>a\<close> and whose \<^verbatim>\<open>"session"\<close> is \<open>s\<close>. The outcome of the loop is what the
  caller sees of it: the exception, or the messages collected.
\<close>

definition addressed :: "pystr \<Rightarrow> pystr \<Rightarrow> pystr \<Rightarrow> bool" where
  "addressed a s l =
     (\<not> blank l \<and>
      (case json_loads l of
         Inl e \<Rightarrow> False
       | Inr msg \<Rightarrow>
           py_get msg (asc ''to'') = Inr (Some (JString a)) \<and>
           py_get msg (asc ''session'') = Inr (Some (JString s))))"

definition outcome :: "pystr \<Rightarrow> pystr \<Rightarrow> pystr list \<Rightarrow> exn + message list" where
  "outcome a s ls = map_sum id fst (scan_lines a s ls [] [])"

text \<open>
  Well-formed text: every code point is a Unicode scalar value (below \<open>0x110000\<close> and not
  a surrogate). The line \<^verbatim>\<open>send_message\<close> appends for a record, and the dictionary
  \<^verbatim>\<open>get_new_messages\<close> returns for it.
\<close>

definition scalar :: "nat \<Rightarrow> bool" where
  "scalar c = (c < 1114112 \<and> \<not> (55296 \<le> c \<and> c \<le> 57343))"

definition valid_text :: "pystr \<Rightarrow> bool" where
  "valid_text s = list_all scalar s"

definition record_line :: "pystr \<Rightarrow> pystr \<Rightarrow> pystr \<Rightarrow> pystr \<Rightarrow> pystr" where
  "record_line to content session now =
     json_dumps [(asc ''timestamp'', now), (asc ''from'', asc ''other''), (asc ''to'', to),
                 (asc ''session'', session), (asc ''content'', content)] @ [10]"

definition record_message :: "pystr \<Rightarrow> pystr \<Rightarrow> message" where
  "record_message content now =
     \<lparr>msg_from = asc ''the-other-agent'', msg_content = JString content,
      msg_timestamp = JString now\<rparr>"

fun log_text :: "log \<Rightarrow> pystr" where
  "log_text None = []"
| "log_text (Some t) = t"

text \<open>
  A Python string is a list of code points below \<open>0x110000\<close>, and surrogates (\<open>0xD800\<close> to
  \<open>0xDFFF\<close>) may occur in it. \<^verbatim>\<open>json.dumps\<close> writes each surrogate as one escape
  \<^verbatim>\<open>\uXXXX\<close>, and \<^verbatim>\<open>json.loads\<close> reads the escape of a high surrogate immediately
  followed by the escape of a low surrogate as the one character the pair encodes:
  \<open>join_surrogates s\<close> is the string with every such pair joined, from left to right.
\<close>

definition high_surrogate :: "nat \<Rightarrow> bool" where
  "high_surrogate c = (55296 \<le> c \<and> c \<le> 56319)"

definition low_surrogate :: "nat \<Rightarrow> bool" where
  "low_surrogate c = (56320 \<le> c \<and> c \<le> 57343)"

fun join_surrogates :: "pystr \<Rightarrow> pystr" where
  "join_surrogates [] = []"
| "join_surrogates [c] = [c]"
| "join_surrogates (c # d # cs) =
     (if high_surrogate c \<and> low_surrogate d
      then (65536 + (c - 55296) * 1024 + (d - 56320)) # join_surrogates cs
      else c # join_surrogates (d # cs))"

definition is_str :: "pystr \<Rightarrow> bool" where
  "is_str s = list_all (\<lambda>c. c < 1114112) s"

text \<open>
  The open tail of a text is what it holds after its last line break as Python reads it
  (\<^verbatim>\<open>\n\<close>, \<^verbatim>\<open>\r\<close> or \<^verbatim>\<open>\r\n\<close>): the unfinished last line, to which the next append is
  joined. A log is appendable when its open tail is empty or holds only spaces and tabs
  (the whitespace that \<^verbatim>\<open>json.loads\<close> skips; no line break occurs in an open tail), and
  it ends in a line break when its open tail is empty. A log that does not exist has the
  empty text.
\<close>

definition open_tail :: "pystr \<Rightarrow> pystr" where
  "open_tail t = rev (takeWhile (\<lambda>c. c \<noteq> 10) (rev (universal_newlines t)))"

definition appendable :: "log \<Rightarrow> bool" where
  "appendable f = list_all json_ws (open_tail (log_text f))"


text \<open>
  Sequences of calls. A run executes the calls in order and collects what the receives
  return, each message with the recipient and session of the receive that returned it;
  a receive that raises returns nothing. What was sent is collected the same way from the
  sends to valid recipients. An entry is a record of the log: recipient, content,
  session and clock reading.
\<close>

datatype op = Send pystr pystr pystr pystr | Receive pystr pystr int

type_synonym delivery = "pystr \<times> pystr \<times> message"

fun run :: "op list \<Rightarrow> log \<Rightarrow> delivery list \<Rightarrow> log \<times> delivery list" where
  "run [] f d = (f, d)"
| "run (Send to content session now # ops) f d =
     run ops (snd (send_message to content session now f)) d"
| "run (Receive r s limit # ops) f d =
     (case get_new_messages r s limit f of
        (Inl e, f') \<Rightarrow> run ops f' d
      | (Inr ms, f') \<Rightarrow> run ops f' (d @ map (\<lambda>m. (r, s, m)) ms))"

fun sent :: "op list \<Rightarrow> delivery list" where
  "sent [] = []"
| "sent (Send to content session now # ops) =
     (if to \<in> set valid_agents then [(to, session, record_message content now)] else [])
     @ sent ops"
| "sent (Receive r s limit # ops) = sent ops"

fun valid_op :: "op \<Rightarrow> bool" where
  "valid_op (Send to content session now) =
     (valid_text content \<and> valid_text session \<and> valid_text now)"
| "valid_op (Receive r s limit) = True"

type_synonym entry = "pystr \<times> pystr \<times> pystr \<times> pystr"

fun line_of :: "entry \<Rightarrow> pystr" where
  "line_of (to, content, session, now) = record_line to content session now"

fun delivery_of :: "entry \<Rightarrow> delivery" where
  "delivery_of (to, content, session, now) = (to, session, record_message content now)"

fun wf_record :: "entry \<Rightarrow> bool" where
  "wf_record (to, content, session, now) =
     (to \<in> set valid_agents \<and> valid_text content \<and> valid_text session \<and> valid_text now)"

fun for_pair :: "pystr \<Rightarrow> pystr \<Rightarrow> entry \<Rightarrow> bool" where
  "for_pair r s (to, content, session, now) = (to = r \<and> session = s)"

fun message_of :: "entry \<Rightarrow> message" where
  "message_of (to, content, session, now) = record_message content now"



section \<open>Evaluating the model on concrete logs\<close>

lemmas relay_eval =
  asc_def py_isspace_def py_strip_def hex_digit_def hex4_def escape_char_def dumps_str_def
  json_dumps_def json_ws_def is_digit_def hex_val_def decode_u_def unescape_def
  int_part_len_def frac_len_def exp_len_def match_number_def json_loads_def run_ops_def
  readlines_def valid_agents_def send_error_def send_confirmation_def send_message_def
  scan_line_def py_slice_from_def rewrite_ops_def get_new_messages_def receive_ops_def

section \<open>The loop over the lines\<close>

lemma json_loads_Inl: "json_loads l = Inl e \<Longrightarrow> e = JSONDecodeError"
  by (auto simp: json_loads_def split: option.splits)

lemma scan_line_acc:
  "scan_line a s l m n =
     (case scan_line a s l [] [] of Inl e \<Rightarrow> Inl e | Inr (m', n') \<Rightarrow> Inr (m @ m', n @ n'))"
  by (simp add: scan_line_def split: sum.splits option.splits)

lemma scan_line_shape:
  "scan_line a s l [] [] = Inr (ms, ns) \<Longrightarrow>
     (blank l \<and> ms = [] \<and> ns = []) \<or> (\<not> blank l \<and> ms = [] \<and> ns = [l]) \<or>
     (\<not> blank l \<and> ns = [] \<and> (\<exists>m. ms = [m]))"
  by (auto simp: scan_line_def blank_def split: sum.splits option.splits if_splits)




lemma scan_lines_acc:
  "scan_lines a s ls m n =
     (case scan_lines a s ls [] [] of Inl e \<Rightarrow> Inl e | Inr (m', n') \<Rightarrow> Inr (m @ m', n @ n'))"
proof (induction ls arbitrary: m n)
  case Nil
  then show ?case by simp
next
  case (Cons l ls)
  show ?case
  proof (cases "scan_line a s l [] []")
    case (Inl e)
    then show ?thesis by (simp add: scan_line_acc[of a s l m n])
  next
    case (Inr p)
    obtain m1 n1 where p: "p = (m1, n1)" by (cases p)
    show ?thesis
      using Inr p Cons.IH[of "m @ m1" "n @ n1"] Cons.IH[of m1 n1]
      by (simp add: scan_line_acc[of a s l m n] split: sum.splits)
  qed
qed

lemma scan_lines_Cons:
  "scan_lines a s (l # ls) [] [] =
     (case scan_line a s l [] [] of
        Inl e \<Rightarrow> Inl e
      | Inr (m1, n1) \<Rightarrow>
          (case scan_lines a s ls [] [] of
             Inl e \<Rightarrow> Inl e
           | Inr (m2, n2) \<Rightarrow> Inr (m1 @ m2, n1 @ n2)))"
proof (cases "scan_line a s l [] []")
  case (Inl e)
  then show ?thesis by simp
next
  case (Inr p)
  obtain m1 n1 where p: "p = (m1, n1)" by (cases p)
  show ?thesis
    using Inr p scan_lines_acc[of a s ls m1 n1] by simp
qed

lemma scan_lines_result:
  "scan_lines a s ls [] [] = Inr (ms, ns) \<Longrightarrow>
     ns = filter (keeps a s) ls \<and> ms = concat (map (yield a s) ls)"
proof (induction ls arbitrary: ms ns)
  case Nil
  then show ?case by simp
next
  case (Cons l ls)
  from Cons.prems obtain m1 n1 m2 n2 where
    l: "scan_line a s l [] [] = Inr (m1, n1)" and
    r: "scan_lines a s ls [] [] = Inr (m2, n2)" and
    e: "ms = m1 @ m2" "ns = n1 @ n2"
    unfolding scan_lines_Cons by (auto split: sum.splits)
  from Cons.IH[OF r] have ih: "n2 = filter (keeps a s) ls" "m2 = concat (map (yield a s) ls)"
    by simp_all
  have y: "yield a s l = m1" using l by (simp add: yield_def)
  have k: "keeps a s l \<longleftrightarrow> m1 = [] \<and> n1 = [l]" using l by (auto simp: keeps_def)
  from scan_line_shape[OF l] show ?case
    by (auto simp: e ih k y)
qed

lemma scan_lines_kept_again:
  "scan_lines a s (filter (keeps a s) ls) [] [] = Inr ([], filter (keeps a s) ls)"
proof (induction ls)
  case Nil
  then show ?case by simp
next
  case (Cons l ls)
  show ?case
  proof (cases "keeps a s l")
    case True
    then have "scan_line a s l [] [] = Inr ([], [l])" by (simp add: keeps_def)
    with True Cons show ?thesis
      using scan_lines_Cons[of a s l "filter (keeps a s) ls"] by simp
  next
    case False
    with Cons show ?thesis by simp
  qed
qed


section \<open>Reading back what was written\<close>

lemma universal_newlines_no_cr: "13 \<notin> set (universal_newlines t)"
  by (induction t rule: universal_newlines.induct) auto

lemma universal_newlines_id: "13 \<notin> set t \<Longrightarrow> universal_newlines t = t"
  by (induction t rule: universal_newlines.induct) auto

lemma lines_ok_Cons: "full_line l \<Longrightarrow> lines_ok ls \<Longrightarrow> lines_ok (l # ls)"
  by (cases ls) simp_all

lemma lines_ok_tail: "lines_ok (l # ls) \<Longrightarrow> lines_ok ls"
  by (cases ls) simp_all

lemma lines_ok_head: "lines_ok (l # ls) \<Longrightarrow> ls \<noteq> [] \<Longrightarrow> full_line l"
  by (cases ls) simp_all

lemma full_line_Cons: "c \<noteq> 10 \<Longrightarrow> c \<noteq> 13 \<Longrightarrow> full_line l \<Longrightarrow> full_line (c # l)"
  by (auto simp: full_line_def)

lemma part_line_Cons: "c \<noteq> 10 \<Longrightarrow> c \<noteq> 13 \<Longrightarrow> part_line l \<Longrightarrow> part_line (c # l)"
  by (auto simp: part_line_def)

lemma split_lines_ok: "13 \<notin> set t \<Longrightarrow> lines_ok (split_lines t)"
proof (induction t)
  case Nil
  then show ?case by simp
next
  case (Cons c cs)
  then have ih: "lines_ok (split_lines cs)" and c13: "c \<noteq> 13" by auto
  show ?case
  proof (cases "c = 10")
    case True
    have "full_line [10]" by (simp add: full_line_def)
    with True ih show ?thesis by (simp add: lines_ok_Cons)
  next
    case False
    show ?thesis
    proof (cases "split_lines cs")
      case Nil
      with False c13 show ?thesis by (simp add: part_line_def)
    next
      case (Cons l ls)
      show ?thesis
      proof (cases ls)
        case Nil
        with Cons ih False c13 show ?thesis
          by (auto simp: full_line_Cons part_line_Cons)
      next
        case (Cons l' ls')
        with \<open>split_lines cs = l # ls\<close> ih False c13 show ?thesis
          by (auto simp: full_line_Cons)
      qed
    qed
  qed
qed

lemma concat_split_lines: "concat (split_lines t) = t"
  by (induction t) (auto split: list.splits)

lemma split_lines_full:
  "10 \<notin> set b \<Longrightarrow> split_lines (b @ 10 # rest) = (b @ [10]) # split_lines rest"
  by (induction b) auto

lemma split_lines_part: "l \<noteq> [] \<Longrightarrow> 10 \<notin> set l \<Longrightarrow> split_lines l = [l]"
proof (induction l)
  case Nil
  then show ?case by simp
next
  case (Cons c cs)
  then show ?case by (cases cs) auto
qed

lemma full_line_split: "full_line l \<Longrightarrow> \<exists>b. l = b @ [10] \<and> 10 \<notin> set b"
  by (metis append_butlast_last_id full_line_def)

lemma split_lines_concat: "lines_ok ls \<Longrightarrow> split_lines (concat ls) = ls"
proof (induction ls rule: lines_ok.induct)
  case 1
  then show ?case by simp
next
  case (2 l)
  then have "full_line l \<or> part_line l" by simp
  then show ?case
  proof
    assume "full_line l"
    from full_line_split[OF this] obtain b where "l = b @ [10]" "10 \<notin> set b" by blast
    then show ?thesis using split_lines_full[of b "[]"] by simp
  next
    assume "part_line l"
    then show ?thesis by (simp add: part_line_def split_lines_part)
  qed
next
  case (3 l l' ls)
  then have f: "full_line l" and ih: "split_lines (concat (l' # ls)) = l' # ls" by simp_all
  from full_line_split[OF f] obtain b where b: "l = b @ [10]" "10 \<notin> set b" by blast
  show ?case using split_lines_full[OF b(2), of "concat (l' # ls)"] ih b(1) by simp
qed

lemma lines_ok_no_cr: "lines_ok ls \<Longrightarrow> 13 \<notin> set (concat ls)"
  by (induction ls rule: lines_ok.induct) (auto simp: full_line_def part_line_def)

lemma lines_ok_filter: "lines_ok ls \<Longrightarrow> lines_ok (filter P ls)"
proof (induction ls)
  case Nil
  then show ?case by simp
next
  case (Cons l ls)
  from Cons have ih: "lines_ok (filter P ls)" by (simp add: lines_ok_tail)
  show ?case
  proof (cases "P l")
    case False
    with ih show ?thesis by simp
  next
    case True
    show ?thesis
    proof (cases "ls = []")
      case True
      with Cons.prems \<open>P l\<close> show ?thesis by simp
    next
      case False
      from lines_ok_head[OF Cons.prems False] ih \<open>P l\<close> show ?thesis
        by (simp add: lines_ok_Cons)
    qed
  qed
qed

lemma readlines_ok: "lines_ok (readlines t)"
  by (simp add: readlines_def split_lines_ok universal_newlines_no_cr)

lemma readlines_concat: "lines_ok ls \<Longrightarrow> readlines (concat ls) = ls"
  using universal_newlines_id[OF lines_ok_no_cr, of ls] split_lines_concat[of ls]
  by (simp add: readlines_def)

lemma readlines_rewritten:
  "readlines (concat (filter P (readlines t))) = filter P (readlines t)"
  by (simp add: readlines_concat lines_ok_filter readlines_ok)

section \<open>The steps of a write\<close>

lemma run_rewrite_ops: "run_ops (rewrite_ops ls) f = Some (concat ls)"
  by (simp add: run_ops_def rewrite_ops_def)

section \<open>What one call does to the log\<close>

lemma get_new_messages_done:
  assumes "a \<in> set valid_agents" and "scan_lines a s (readlines t) [] [] = Inr (ms, ns)"
  shows "get_new_messages a s lim (Some t) =
           (Inr (if ms \<noteq> [] then py_slice_from (- lim) ms else []),
            Some (concat (filter (keeps a s) (readlines t))))"
    and "ms = concat (map (yield a s) (readlines t))"
  using assms scan_lines_result[OF assms(2)]
  by (simp_all add: get_new_messages_def run_rewrite_ops)

lemma get_new_messages_same:
  assumes "a \<notin> set valid_agents \<or> f = None \<or>
           (\<exists>t e. f = Some t \<and> scan_lines a s (readlines t) [] [] = Inl e)"
  shows "snd (get_new_messages a s lim f) = f"
  using assms by (auto simp: get_new_messages_def)

lemma log_lines_after:
  "log_lines (snd (get_new_messages a s lim f)) = log_lines f \<or>
   (a \<in> set valid_agents \<and> (\<exists>t ms ns. f = Some t \<and>
       scan_lines a s (readlines t) [] [] = Inr (ms, ns) \<and>
       snd (get_new_messages a s lim f) = Some (concat (filter (keeps a s) (readlines t))) \<and>
       log_lines (snd (get_new_messages a s lim f)) = filter (keeps a s) (log_lines f)))"
proof (cases "a \<in> set valid_agents")
  case False
  then show ?thesis by (simp add: get_new_messages_def)
next
  case True
  show ?thesis
  proof (cases f)
    case None
    then show ?thesis by (simp add: get_new_messages_def)
  next
    case (Some t)
    show ?thesis
    proof (cases "scan_lines a s (readlines t) [] []")
      case (Inl e)
      with Some True show ?thesis by (simp add: get_new_messages_def)
    next
      case (Inr p)
      obtain ms ns where p: "p = (ms, ns)" by (cases p)
      from get_new_messages_done(1)[OF True Inr[unfolded p], of lim] Some True Inr p
      show ?thesis by (simp add: readlines_rewritten)
    qed
  qed
qed




lemma addressed_keeps: "addressed r' s' l \<Longrightarrow> (r', s') \<noteq> (r, s) \<Longrightarrow> keeps r s l"
  by (auto simp: addressed_def keeps_def blank_def scan_line_def split: sum.splits)

lemma filter_addressed_keeps:
  "(r', s') \<noteq> (r, s) \<Longrightarrow>
     filter (addressed r' s') (filter (keeps r s) ls) = filter (addressed r' s') ls"
  by (induction ls) (auto simp: addressed_keeps)

lemma dropped_is_silent:
  assumes "scan_line r s l [] [] = Inr (ms, ns)" and "\<not> keeps r s l" and "(r', s') \<noteq> (r, s)"
  shows "\<exists>ns'. scan_line r' s' l [] [] = Inr ([], ns')"
proof (cases "py_strip l = []")
  case True
  then show ?thesis by (simp add: scan_line_def)
next
  case nb: False
  show ?thesis
  proof (cases "json_loads l")
    case (Inl e)
    with nb json_loads_Inl[OF Inl] show ?thesis by (simp add: scan_line_def)
  next
    case (Inr msg)
    show ?thesis
    proof (cases "py_get msg (asc ''to'')")
      case (Inl e)
      with nb Inr assms(1) show ?thesis by (simp add: scan_line_def)
    next
      case to: (Inr to_v)
      show ?thesis
      proof (cases "to_v = Some (JString r)")
        case False
        with nb Inr to assms(2) show ?thesis by (simp add: scan_line_def keeps_def)
      next
        case tr: True
        show ?thesis
        proof (cases "py_get msg (asc ''session'')")
          case (Inl e)
          with nb Inr to tr assms(1) show ?thesis by (simp add: scan_line_def)
        next
          case se: (Inr session_v)
          show ?thesis
          proof (cases "session_v = Some (JString s)")
            case False
            with nb Inr to tr se assms(2) show ?thesis by (simp add: scan_line_def keeps_def)
          next
            case True
            with nb Inr to tr se assms(3) show ?thesis
              by (auto simp: scan_line_def)
          qed
        qed
      qed
    qed
  qed
qed

lemma outcome_Nil: "outcome a s [] = Inr []"
  by (simp add: outcome_def)

lemma outcome_Cons:
  "outcome a s (l # ls) =
     (case scan_line a s l [] [] of
        Inl e \<Rightarrow> Inl e
      | Inr (m1, n1) \<Rightarrow> (case outcome a s ls of Inl e \<Rightarrow> Inl e | Inr m2 \<Rightarrow> Inr (m1 @ m2)))"
  unfolding outcome_def scan_lines_Cons by (auto split: sum.splits)

lemma outcome_filter_keeps:
  assumes "scan_lines r s ls [] [] = Inr (ms, ns)" and "(r', s') \<noteq> (r, s)"
  shows "outcome r' s' (filter (keeps r s) ls) = outcome r' s' ls"
  using assms(1)
proof (induction ls arbitrary: ms ns)
  case Nil
  then show ?case by simp
next
  case (Cons l ls)
  from Cons.prems obtain m1 n1 m2 n2 where
    l: "scan_line r s l [] [] = Inr (m1, n1)" and
    rest: "scan_lines r s ls [] [] = Inr (m2, n2)"
    unfolding scan_lines_Cons by (auto split: sum.splits)
  note ih = Cons.IH[OF rest]
  show ?case
  proof (cases "keeps r s l")
    case True
    with ih show ?thesis by (simp add: outcome_Cons split: sum.splits)
  next
    case False
    from dropped_is_silent[OF l False assms(2)] obtain ns' where
      "scan_line r' s' l [] [] = Inr ([], ns')" by blast
    with False ih show ?thesis by (simp add: outcome_Cons split: sum.splits)
  qed
qed

lemma fst_get_new_messages:
  "fst (get_new_messages a s lim f) =
     (if a \<notin> set valid_agents then Inr []
      else case outcome a s (log_lines f) of
             Inl e \<Rightarrow> Inl e
           | Inr ms \<Rightarrow> Inr (if ms \<noteq> [] then py_slice_from (- lim) ms else []))"
  by (cases f) (auto simp: get_new_messages_def outcome_def split: sum.splits)

section \<open>A record written by \<^verbatim>\<open>json.dumps\<close> is read back by \<^verbatim>\<open>json.loads\<close>\<close>

lemma hex_val_hex_digit: "d < 16 \<Longrightarrow> hex_val (hex_digit d) = Some d"
  by (simp add: hex_val_def hex_digit_def)

lemma hex4_recompose:
  assumes "(n::nat) < 65536"
  shows "((n div 4096 mod 16 * 16 + n div 256 mod 16) * 16 + n div 16 mod 16) * 16 + n mod 16 = n"
proof -
  have a: "n div 256 = n div 16 div 16" "n div 4096 = n div 256 div 16"
    by (simp_all add: div_mult2_eq[symmetric])
  have b: "n div 4096 mod 16 = n div 4096" using assms by simp
  have "n = n div 16 * 16 + n mod 16" by simp
  also have "n div 16 = n div 256 * 16 + n div 16 mod 16" unfolding a by simp
  also have "n div 256 = n div 4096 * 16 + n div 256 mod 16" unfolding a by simp
  finally show ?thesis unfolding b by simp
qed

lemma hex4_val_digits:
  "a < 16 \<Longrightarrow> b < 16 \<Longrightarrow> c < 16 \<Longrightarrow> d < 16 \<Longrightarrow>
     hex4_val [hex_digit a, hex_digit b, hex_digit c, hex_digit d]
       = Some (((a * 16 + b) * 16 + c) * 16 + d)"
  by (simp add: hex_val_hex_digit)

lemma hex4_val_hex4: "n < 65536 \<Longrightarrow> hex4_val (hex4 n) = Some n"
proof -
  assume n: "n < 65536"
  have "hex4_val (hex4 n)
      = Some (((n div 4096 mod 16 * 16 + n div 256 mod 16) * 16 + n div 16 mod 16) * 16 + n mod 16)"
    unfolding hex4_def by (rule hex4_val_digits) simp_all
  also have "\<dots> = Some n" by (simp only: hex4_recompose[OF n])
  finally show ?thesis .
qed

lemma length_hex4: "length (hex4 n) = 4"
  by (simp add: hex4_def)

lemma decode_u_bmp:
  assumes "c < 65536" and "\<not> (55296 \<le> c \<and> c \<le> 56319)"
  shows "decode_u (hex4 c @ rest) = Some (c, 4)"
  using assms by (auto simp: decode_u_def length_hex4 hex4_val_hex4)

lemma decode_u_pair:
  assumes "55296 \<le> hi" "hi \<le> 56319" "56320 \<le> lo" "lo \<le> 57343"
  shows "decode_u (hex4 hi @ 92 # 117 # hex4 lo @ rest)
           = Some (65536 + (hi - 55296) * 1024 + (lo - 56320), 10)"
proof -
  have h: "hex4_val (hex4 hi) = Some hi" "hex4_val (hex4 lo) = Some lo"
    using assms by (simp_all add: hex4_val_hex4)
  show ?thesis using assms by (simp add: decode_u_def length_hex4 h)
qed

lemma scanstring_escape_char:
  assumes "c < 1114112" and "\<not> (55296 \<le> c \<and> c \<le> 56319)"
  shows "scanstring (escape_char c @ rest) = map_option (\<lambda>(s, r). (c # s, r)) (scanstring rest)"
proof -
  consider (short) "c = 92 \<or> c = 34 \<or> c = 8 \<or> c = 12 \<or> c = 10 \<or> c = 13 \<or> c = 9"
    | (plain) "32 \<le> c" "c \<le> 126" "c \<noteq> 92" "c \<noteq> 34"
    | (bmp) "c < 32 \<or> 126 < c" "c < 65536" "c \<noteq> 8" "c \<noteq> 12" "c \<noteq> 10" "c \<noteq> 13" "c \<noteq> 9"
    | (astral) "65536 \<le> c"
    by linarith
  then show ?thesis
  proof cases
    case short
    then show ?thesis by (auto simp: escape_char_def unescape_def)
  next
    case plain
    then show ?thesis by (simp add: escape_char_def)
  next
    case bmp
    note ns = assms(2)
    from bmp have e: "escape_char c = 92 # 117 # hex4 c"
      by (auto simp: escape_char_def)
    show ?thesis by (simp add: e decode_u_bmp[OF bmp(2) ns] length_hex4)
  next
    case astral
    let ?n = "c - 65536"
    let ?hi = "55296 + ?n div 1024 mod 1024"
    let ?lo = "56320 + ?n mod 1024"
    note lt = assms(1)
    have e: "escape_char c = 92 # 117 # hex4 ?hi @ 92 # 117 # hex4 ?lo"
      using astral by (simp add: escape_char_def Let_def)
    have b: "55296 \<le> ?hi" "?hi \<le> 56319" "56320 \<le> ?lo" "?lo \<le> 57343" by simp_all
    have dm: "?n div 1024 mod 1024 = ?n div 1024" using lt by simp
    have v: "65536 + (?hi - 55296) * 1024 + (?lo - 56320) = c"
      using astral unfolding dm by simp
    from decode_u_pair[OF b, of rest] v
    have d: "decode_u (hex4 ?hi @ 92 # 117 # hex4 ?lo @ rest) = Some (c, 10)" by simp
    have dr: "drop 10 (hex4 ?hi @ 92 # 117 # hex4 ?lo @ rest) = rest"
      by (simp add: length_hex4)
    show ?thesis unfolding e using d dr by simp
  qed
qed

lemma scanstring_escaped:
  "valid_text s \<Longrightarrow> scanstring (concat (map escape_char s) @ 34 # rest) = Some (s, rest)"
proof (induction s)
  case Nil
  then show ?case by simp
next
  case (Cons c s)
  then have c: "c < 1114112" "\<not> (55296 \<le> c \<and> c \<le> 56319)"
    and ih: "scanstring (concat (map escape_char s) @ 34 # rest) = Some (s, rest)"
    by (auto simp: valid_text_def scalar_def)
  show ?case using scanstring_escape_char[OF c, of "concat (map escape_char s) @ 34 # rest"] ih
    by simp
qed

lemma tokenize_punct:
  "tokenize (123 # r) = map_option (Cons TLBrace) (tokenize r)"
  "tokenize (125 # r) = map_option (Cons TRBrace) (tokenize r)"
  "tokenize (58 # r) = map_option (Cons TColon) (tokenize r)"
  "tokenize (44 # r) = map_option (Cons TComma) (tokenize r)"
  "tokenize (32 # r) = tokenize r"
  "tokenize (10 # r) = tokenize r"
  by (simp_all add: json_ws_def)

lemma tokenize_dumps_str:
  "valid_text s \<Longrightarrow> tokenize (dumps_str s @ r) = map_option (Cons (TStr s)) (tokenize r)"
  by (simp add: dumps_str_def json_ws_def scanstring_escaped)

lemma valid_text_keys:
  "valid_text (asc ''timestamp'')" "valid_text (asc ''from'')" "valid_text (asc ''other'')"
  "valid_text (asc ''to'')" "valid_text (asc ''session'')" "valid_text (asc ''content'')"
  by (simp_all add: valid_text_def scalar_def asc_def)

lemma tokenize_record_line:
  assumes "valid_text to" "valid_text content" "valid_text session" "valid_text now"
  shows "tokenize (record_line to content session now) =
     Some [TLBrace, TStr (asc ''timestamp''), TColon, TStr now, TComma,
           TStr (asc ''from''), TColon, TStr (asc ''other''), TComma,
           TStr (asc ''to''), TColon, TStr to, TComma,
           TStr (asc ''session''), TColon, TStr session, TComma,
           TStr (asc ''content''), TColon, TStr content, TRBrace]"
  using assms
  by (simp add: record_line_def json_dumps_def tokenize_punct tokenize_dumps_str valid_text_keys
        tokenize.simps(1) del: tokenize.simps(2))

lemma json_loads_record_line:
  assumes "valid_text to" "valid_text content" "valid_text session" "valid_text now"
  shows "json_loads (record_line to content session now) =
     Inr (JObject [(asc ''timestamp'', JString now), (asc ''from'', JString (asc ''other'')),
                   (asc ''to'', JString to), (asc ''session'', JString session),
                   (asc ''content'', JString content)])"
  by (simp add: json_loads_def tokenize_record_line[OF assms])

lemma py_strip_nonspace: "\<not> py_isspace c \<Longrightarrow> py_strip (c # cs) \<noteq> []"
  by (simp add: py_strip_def dropWhile_eq_Nil_conv)

lemma record_line_Cons:
  "record_line to content session now =
     123 # dumps_items [(asc ''timestamp'', now), (asc ''from'', asc ''other''), (asc ''to'', to),
                 (asc ''session'', session), (asc ''content'', content)] @ [125, 10]"
  by (simp add: record_line_def json_dumps_def)

lemma record_line_not_blank: "py_strip (record_line to content session now) \<noteq> []"
  unfolding record_line_Cons by (rule py_strip_nonspace) (simp add: py_isspace_def)

lemma scan_line_record_line:
  assumes "valid_text to" "valid_text content" "valid_text session" "valid_text now"
  shows "scan_line a s (record_line to content session now) [] [] =
     (if to = a \<and> session = s then Inr ([record_message content now], [])
      else Inr ([], [record_line to content session now]))"
  by (simp add: scan_line_def json_loads_record_line[OF assms] record_line_not_blank
        record_message_def asc_def)

lemma hex_digit_printable: "d < 16 \<Longrightarrow> 32 \<le> hex_digit d \<and> hex_digit d \<le> 126"
  by (simp add: hex_digit_def)

lemma hex4_printable: "x \<in> set (hex4 n) \<Longrightarrow> 32 \<le> x \<and> x \<le> 126"
  using hex_digit_printable[of "n div 4096 mod 16"] hex_digit_printable[of "n div 256 mod 16"]
    hex_digit_printable[of "n div 16 mod 16"] hex_digit_printable[of "n mod 16"]
  by (auto simp: hex4_def)

lemma escape_char_printable: "x \<in> set (escape_char c) \<Longrightarrow> 32 \<le> x \<and> x \<le> 126"
  using hex4_printable[of x]
  by (auto simp: escape_char_def Let_def split: if_splits)

lemma dumps_str_printable: "x \<in> set (dumps_str s) \<Longrightarrow> 32 \<le> x \<and> x \<le> 126"
  using escape_char_printable[of x] by (auto simp: dumps_str_def)

lemma dumps_items_printable: "x \<in> set (dumps_items d) \<Longrightarrow> 32 \<le> x \<and> x \<le> 126"
  using dumps_str_printable[of x]
  by (induction d rule: dumps_items.induct) auto

lemma json_dumps_printable: "x \<in> set (json_dumps d) \<Longrightarrow> 32 \<le> x \<and> x \<le> 126"
  using dumps_items_printable[of x d] by (auto simp: json_dumps_def)

lemma record_line_full: "full_line (record_line to content session now)"
  using json_dumps_printable[of 10] json_dumps_printable[of 13]
  by (auto simp: record_line_def full_line_def)

lemma universal_newlines_append:
  "t = [] \<or> last t \<noteq> 13 \<Longrightarrow>
     universal_newlines (t @ u) = universal_newlines t @ universal_newlines u"
proof (induction t rule: universal_newlines.induct)
  case 1
  then show ?case by simp
next
  case (2 c)
  then show ?case by (cases u) auto
next
  case (3 c d cs)
  then show ?case by (cases "cs = []") auto
qed

lemma universal_newlines_last:
  "t \<noteq> [] \<Longrightarrow> last t = 10 \<Longrightarrow>
     universal_newlines t \<noteq> [] \<and> last (universal_newlines t) = 10"
proof (induction t rule: universal_newlines.induct)
  case 1
  then show ?case by simp
next
  case (2 c)
  then show ?case by simp
next
  case (3 c d cs)
  then show ?case by (cases "cs = []") auto
qed

lemma split_lines_Nil: "split_lines t = [] \<longleftrightarrow> t = []"
  by (cases t) (auto split: list.splits)

lemma split_lines_append:
  "x = [] \<or> last x = 10 \<Longrightarrow> split_lines (x @ y) = split_lines x @ split_lines y"
proof (induction x)
  case Nil
  then show ?case by simp
next
  case (Cons c cs)
  show ?case
  proof (cases "cs = []")
    case True
    with Cons.prems show ?thesis by simp
  next
    case False
    with Cons have ih: "split_lines (cs @ y) = split_lines cs @ split_lines y" by simp
    from False obtain l ls where l: "split_lines cs = l # ls"
      using split_lines_Nil[of cs] by (cases "split_lines cs") auto
    show ?thesis by (simp add: ih l)
  qed
qed

lemma split_lines_full_line: "full_line l \<Longrightarrow> split_lines l = [l]"
  using split_lines_concat[of "[l]"] by simp

section \<open>Appending a line after a line feed\<close>

lemma readlines_append_line:
  assumes "t = [] \<or> last t = 10" and "full_line l"
  shows "readlines (t @ l) = readlines t @ [l]"
proof -
  from assms(2) have l13: "13 \<notin> set l" by (simp add: full_line_def)
  from assms(1) have "t = [] \<or> last t \<noteq> 13" by auto
  then have u: "universal_newlines (t @ l) = universal_newlines t @ l"
    by (simp add: universal_newlines_append universal_newlines_id[OF l13])
  have "universal_newlines t = [] \<or> last (universal_newlines t) = 10"
    using assms(1) universal_newlines_last[of t] by (cases "t = []") auto
  then show ?thesis
    by (simp add: readlines_def u split_lines_append split_lines_full_line[OF assms(2)])
qed

lemma scan_lines_append:
  "scan_lines a s (xs @ ys) m n =
     (case scan_lines a s xs m n of Inl e \<Rightarrow> Inl e | Inr (m', n') \<Rightarrow> scan_lines a s ys m' n')"
  by (induction xs arbitrary: m n) (auto split: sum.splits)

lemma py_slice_from_last:
  "0 < limit \<Longrightarrow> py_slice_from (- limit) xs = drop (length xs - nat limit) xs"
  by (auto simp: py_slice_from_def Let_def max_def intro!: arg_cong2[where f=drop])

lemma valid_agents_text: "r \<in> set valid_agents \<Longrightarrow> valid_text r"
  by (auto simp: valid_agents_def valid_text_def scalar_def asc_def)

lemma log_lines_text: "log_lines f = readlines (log_text f)"
  by (cases f) (simp_all add: readlines_def)

lemma send_message_valid:
  "to \<in> set valid_agents \<Longrightarrow>
     send_message to content session now f =
       (send_confirmation to session, Some (log_text f @ record_line to content session now))"
  by (cases f) (simp_all add: send_message_def run_ops_def record_line_def)

lemma outcome_append:
  "outcome a s (xs @ ys) =
     (case outcome a s xs of
        Inl e \<Rightarrow> Inl e
      | Inr m1 \<Rightarrow> (case outcome a s ys of Inl e \<Rightarrow> Inl e | Inr m2 \<Rightarrow> Inr (m1 @ m2)))"
proof (induction xs)
  case Nil
  then show ?case by (simp add: outcome_Nil split: sum.splits)
next
  case (Cons x xs)
  then show ?case by (simp add: outcome_Cons split: sum.splits prod.splits)
qed

lemma outcome_record_line:
  assumes "valid_text to" "valid_text content" "valid_text session" "valid_text now"
  shows "outcome a s [record_line to content session now] =
           Inr (if to = a \<and> session = s then [record_message content now] else [])"
  by (simp add: outcome_Cons outcome_Nil scan_line_record_line[OF assms])

section \<open>Surrogates in a record\<close>

lemma escape_char_surrogate:
  "55296 \<le> c \<Longrightarrow> c \<le> 57343 \<Longrightarrow> escape_char c = 92 # 117 # hex4 c"
  by (simp add: escape_char_def)

lemma decode_u_high_end:
  assumes "high_surrogate c"
  shows "decode_u (hex4 c @ 34 # r) = Some (c, 4)"
  using assms by (simp add: decode_u_def length_hex4 hex4_val_hex4 high_surrogate_def)

lemma decode_u_high_low:
  assumes "high_surrogate c" and "low_surrogate d"
  shows "decode_u (hex4 c @ escape_char d @ r)
           = Some (65536 + (c - 55296) * 1024 + (d - 56320), 10)"
proof -
  from assms(2) have e: "escape_char d = 92 # 117 # hex4 d"
    by (simp add: escape_char_surrogate low_surrogate_def)
  from decode_u_pair[of c d r] assms show ?thesis
    by (simp add: e high_surrogate_def low_surrogate_def)
qed

lemma take2_hex4: "take 2 (drop 4 (hex4 c @ X)) = take 2 X"
  by (simp add: length_hex4)

lemma take4_hex4: "take 4 (hex4 c @ X) = hex4 c"
  by (simp add: length_hex4)

lemma decode_u_high_other:
  assumes "high_surrogate c" and "take 2 X \<noteq> [92, 117]"
  shows "decode_u (hex4 c @ X) = Some (c, 4)"
proof -
  from assms(1) have c: "hex4_val (hex4 c) = Some c"
    by (simp add: hex4_val_hex4 high_surrogate_def)
  show ?thesis
    unfolding decode_u_def take4_hex4 take2_hex4 c using assms(2) by simp
qed

lemma decode_u_high_u:
  assumes "high_surrogate c" and "x < 65536" and "\<not> low_surrogate x"
  shows "decode_u (hex4 c @ 92 # 117 # hex4 x @ r) = Some (c, 4)"
proof -
  from assms(1) have c: "hex4_val (hex4 c) = Some c"
    by (simp add: hex4_val_hex4 high_surrogate_def)
  have x: "hex4_val (take 4 (drop 6 (hex4 c @ 92 # 117 # hex4 x @ r))) = Some x"
    by (simp add: length_hex4 hex4_val_hex4[OF assms(2)])
  from assms(3) have nl: "\<not> (56320 \<le> x \<and> x \<le> 57343)" by (simp add: low_surrogate_def)
  show ?thesis
    unfolding decode_u_def take4_hex4 c x using nl by (auto simp: length_hex4)
qed

lemma escape_char_shape:
  assumes "d < 1114112"
  shows "(\<exists>x. escape_char d = 92 # 117 # hex4 x \<and> x = d \<and> x < 65536) \<or>
         (\<exists>hi lo. escape_char d = 92 # 117 # hex4 hi @ 92 # 117 # hex4 lo \<and>
                  high_surrogate hi) \<or>
         (\<forall>X. take 2 (escape_char d @ X) \<noteq> [92, 117])"
proof -
  consider (short) "d = 92 \<or> d = 34 \<or> d = 8 \<or> d = 12 \<or> d = 10 \<or> d = 13 \<or> d = 9"
    | (plain) "32 \<le> d" "d \<le> 126" "d \<noteq> 92" "d \<noteq> 34"
    | (bmp) "d < 32 \<or> 126 < d" "d < 65536" "d \<noteq> 8" "d \<noteq> 12" "d \<noteq> 10" "d \<noteq> 13" "d \<noteq> 9"
    | (astral) "65536 \<le> d"
    by linarith
  then show ?thesis
  proof cases
    case short
    then have "\<forall>X. take 2 (escape_char d @ X) \<noteq> [92, 117]"
      by (elim disjE) (simp_all add: escape_char_def)
    then show ?thesis by blast
  next
    case plain
    then have e: "escape_char d = [d]" by (simp add: escape_char_def)
    have "\<forall>X. take 2 (escape_char d @ X) \<noteq> [92, 117]"
      unfolding e using plain(3) by simp
    then show ?thesis by blast
  next
    case bmp
    then have "escape_char d = 92 # 117 # hex4 d" by (auto simp: escape_char_def)
    with bmp(2) show ?thesis by blast
  next
    case astral
    let ?n = "d - 65536"
    have e: "escape_char d = 92 # 117 # hex4 (55296 + ?n div 1024 mod 1024) @
                             92 # 117 # hex4 (56320 + ?n mod 1024)"
      using astral by (simp add: escape_char_def Let_def)
    have "high_surrogate (55296 + ?n div 1024 mod 1024)"
      unfolding high_surrogate_def
      using mod_less_divisor[of 1024 "?n div 1024"] by linarith
    with e show ?thesis by blast
  qed
qed

lemma decode_u_high_alone:
  assumes "high_surrogate c" and "d < 1114112" and "\<not> low_surrogate d"
  shows "decode_u (hex4 c @ escape_char d @ r) = Some (c, 4)"
proof -
  from escape_char_shape[OF assms(2)] consider
      (u) "escape_char d = 92 # 117 # hex4 d" "d < 65536"
    | (pair) hi lo where "escape_char d = 92 # 117 # hex4 hi @ 92 # 117 # hex4 lo"
        "high_surrogate hi"
    | (other) "\<forall>X. take 2 (escape_char d @ X) \<noteq> [92, 117]"
    by blast
  then show ?thesis
  proof cases
    case u
    from decode_u_high_u[OF assms(1) u(2) assms(3), of r] u(1) show ?thesis by simp
  next
    case pair
    from pair(2) have "hi < 65536" "\<not> low_surrogate hi"
      by (simp_all add: high_surrogate_def low_surrogate_def)
    from decode_u_high_u[OF assms(1) this, of "92 # 117 # hex4 lo @ r"] pair(1)
    show ?thesis by simp
  next
    case other
    then have "take 2 (escape_char d @ r) \<noteq> [92, 117]" by blast
    from decode_u_high_other[OF assms(1) this] show ?thesis .
  qed
qed

lemma scanstring_escaped_join:
  "is_str s \<Longrightarrow>
     scanstring (concat (map escape_char s) @ 34 # rest) = Some (join_surrogates s, rest)"
proof (induction s rule: join_surrogates.induct)
  case 1
  then show ?case by simp
next
  case (2 c)
  then have lt: "c < 1114112" by (simp add: is_str_def)
  show ?case
  proof (cases "high_surrogate c")
    case False
    then have "\<not> (55296 \<le> c \<and> c \<le> 56319)" by (simp add: high_surrogate_def)
    from scanstring_escape_char[OF lt this, of "34 # rest"] show ?thesis by simp
  next
    case True
    then have e: "escape_char c = 92 # 117 # hex4 c"
      by (simp add: escape_char_surrogate high_surrogate_def)
    show ?thesis by (simp add: e decode_u_high_end[OF True] length_hex4)
  qed
next
  case (3 c d cs)
  then have lt: "c < 1114112" "d < 1114112" and scs: "is_str cs" and sdcs: "is_str (d # cs)"
    by (simp_all add: is_str_def)
  let ?tail = "concat (map escape_char cs) @ 34 # rest"
  show ?case
  proof (cases "high_surrogate c")
    case False
    then have nh: "\<not> (55296 \<le> c \<and> c \<le> 56319)" by (simp add: high_surrogate_def)
    from "3.IH"(2) False sdcs
    have ih: "scanstring (concat (map escape_char (d # cs)) @ 34 # rest)
                = Some (join_surrogates (d # cs), rest)" by simp
    from scanstring_escape_char[OF lt(1) nh, of "concat (map escape_char (d # cs)) @ 34 # rest"] ih
    show ?thesis using False by simp
  next
    case True
    then have e: "escape_char c = 92 # 117 # hex4 c"
      by (simp add: escape_char_surrogate high_surrogate_def)
    show ?thesis
    proof (cases "low_surrogate d")
      case low: True
      from "3.IH"(1) True low scs
      have ih: "scanstring ?tail = Some (join_surrogates cs, rest)" by simp
      have ed: "length (escape_char d) = 6"
        using low by (simp add: escape_char_surrogate low_surrogate_def length_hex4)
      have dr: "drop 10 (hex4 c @ escape_char d @ ?tail) = ?tail"
        by (simp add: length_hex4 ed)
      show ?thesis
        using True low ih dr decode_u_high_low[OF True low, of ?tail]
        by (simp add: e)
    next
      case nlow: False
      from "3.IH"(2) True nlow sdcs
      have ih: "scanstring (concat (map escape_char (d # cs)) @ 34 # rest)
                  = Some (join_surrogates (d # cs), rest)" by simp
      have dr: "drop 4 (hex4 c @ escape_char d @ ?tail) = escape_char d @ ?tail"
        by (simp add: length_hex4)
      show ?thesis
        using True nlow ih dr decode_u_high_alone[OF True lt(2) nlow, of ?tail]
        by (simp add: e)
    qed
  qed
qed

lemma join_surrogates_valid: "valid_text s \<Longrightarrow> join_surrogates s = s"
  by (induction s rule: join_surrogates.induct)
     (auto simp: valid_text_def scalar_def high_surrogate_def)

lemma is_str_valid: "valid_text s \<Longrightarrow> is_str s"
  by (induction s) (auto simp: valid_text_def scalar_def is_str_def)

lemma tokenize_dumps_str_join:
  "is_str s \<Longrightarrow> tokenize (dumps_str s @ r) = map_option (Cons (TStr (join_surrogates s))) (tokenize r)"
  by (simp add: dumps_str_def json_ws_def scanstring_escaped_join)

lemma keys_join:
  "join_surrogates (asc ''timestamp'') = asc ''timestamp''"
  "join_surrogates (asc ''from'') = asc ''from''"
  "join_surrogates (asc ''other'') = asc ''other''"
  "join_surrogates (asc ''to'') = asc ''to''"
  "join_surrogates (asc ''session'') = asc ''session''"
  "join_surrogates (asc ''content'') = asc ''content''"
  by (simp_all add: join_surrogates_valid valid_text_keys)

lemma keys_is_str:
  "is_str (asc ''timestamp'')" "is_str (asc ''from'')" "is_str (asc ''other'')"
  "is_str (asc ''to'')" "is_str (asc ''session'')" "is_str (asc ''content'')"
  by (simp_all add: is_str_valid valid_text_keys)

lemma tokenize_record_line_join:
  assumes "is_str to" "is_str content" "is_str session" "is_str now"
  shows "tokenize (record_line to content session now) =
     Some [TLBrace, TStr (asc ''timestamp''), TColon, TStr (join_surrogates now), TComma,
           TStr (asc ''from''), TColon, TStr (asc ''other''), TComma,
           TStr (asc ''to''), TColon, TStr (join_surrogates to), TComma,
           TStr (asc ''session''), TColon, TStr (join_surrogates session), TComma,
           TStr (asc ''content''), TColon, TStr (join_surrogates content), TRBrace]"
  using assms
  by (simp add: record_line_def json_dumps_def tokenize_punct tokenize_dumps_str_join keys_is_str
        keys_join tokenize.simps(1) del: tokenize.simps(2))

lemma tokenize_ws_prefix: "list_all json_ws p \<Longrightarrow> tokenize (p @ x) = tokenize x"
  by (induction p) simp_all

lemma json_loads_ws_prefix: "list_all json_ws p \<Longrightarrow> json_loads (p @ x) = json_loads x"
  by (simp add: json_loads_def tokenize_ws_prefix)

lemma json_loads_record_line_join:
  assumes "is_str to" "is_str content" "is_str session" "is_str now"
  shows "json_loads (record_line to content session now) =
     Inr (JObject [(asc ''timestamp'', JString (join_surrogates now)),
                   (asc ''from'', JString (asc ''other'')),
                   (asc ''to'', JString (join_surrogates to)),
                   (asc ''session'', JString (join_surrogates session)),
                   (asc ''content'', JString (join_surrogates content))])"
  by (simp add: json_loads_def tokenize_record_line_join[OF assms])

section \<open>A record after whitespace\<close>

lemma py_strip_empty: "py_strip x = [] \<longleftrightarrow> list_all py_isspace x"
proof -
  have "py_strip x = [] \<longleftrightarrow> dropWhile py_isspace x = []"
  proof
    assume "py_strip x = []"
    then have a: "\<forall>y \<in> set (dropWhile py_isspace x). py_isspace y"
      by (simp add: py_strip_def dropWhile_eq_Nil_conv)
    show "dropWhile py_isspace x = []"
    proof (rule ccontr)
      assume n: "dropWhile py_isspace x \<noteq> []"
      then have "\<not> py_isspace (hd (dropWhile py_isspace x))" by (rule hd_dropWhile)
      moreover from n have "hd (dropWhile py_isspace x) \<in> set (dropWhile py_isspace x)" by simp
      ultimately show False using a by blast
    qed
  next
    assume "dropWhile py_isspace x = []"
    then show "py_strip x = []" by (simp only: py_strip_def rev.simps dropWhile.simps)
  qed
  then show ?thesis by (simp add: dropWhile_eq_Nil_conv list_all_iff)
qed

lemma json_ws_isspace: "json_ws c \<Longrightarrow> py_isspace c"
  by (auto simp: json_ws_def py_isspace_def)

lemma ws_blank: "list_all json_ws p \<Longrightarrow> py_strip p = []"
  by (simp add: py_strip_empty list_all_iff json_ws_isspace)

lemma record_line_prefixed_not_blank: "py_strip (p @ record_line to c se now) \<noteq> []"
proof -
  have "123 \<in> set (p @ record_line to c se now)" by (simp add: record_line_Cons)
  moreover have "\<not> py_isspace 123" by (simp add: py_isspace_def)
  ultimately show ?thesis unfolding py_strip_empty list_all_iff by blast
qed

lemma scan_line_record_line_join:
  assumes "is_str to" "is_str content" "is_str session" "is_str now" and "list_all json_ws p"
  shows "scan_line a s (p @ record_line to content session now) [] [] =
     (if join_surrogates to = a \<and> join_surrogates session = s
      then Inr ([record_message (join_surrogates content) (join_surrogates now)], [])
      else Inr ([], [p @ record_line to content session now]))"
  by (simp add: scan_line_def json_loads_ws_prefix[OF assms(5)]
        json_loads_record_line_join[OF assms(1-4)] record_line_prefixed_not_blank
        record_message_def asc_def)

lemma outcome_record_line_join:
  assumes "is_str to" "is_str content" "is_str session" "is_str now" and "list_all json_ws p"
  shows "outcome a s [p @ record_line to content session now] =
           Inr (if join_surrogates to = a \<and> join_surrogates session = s
                then [record_message (join_surrogates content) (join_surrogates now)] else [])"
  by (simp add: outcome_Cons outcome_Nil scan_line_record_line_join[OF assms])

lemma outcome_blank: "py_strip p = [] \<Longrightarrow> outcome a s [p] = Inr []"
  by (simp add: outcome_Cons outcome_Nil scan_line_def)

section \<open>Appending a line to any log\<close>

lemma universal_newlines_append_start:
  "u \<noteq> [] \<Longrightarrow> hd u \<noteq> 10 \<Longrightarrow>
     universal_newlines (t @ u) = universal_newlines t @ universal_newlines u"
proof (induction t rule: universal_newlines.induct)
  case 1
  then show ?case by simp
next
  case (2 c)
  then show ?case by (cases u) auto
next
  case (3 c d cs)
  then show ?case by auto
qed

lemma open_tail_split:
  obtains body where "universal_newlines t = body @ open_tail t"
    and "body = [] \<or> last body = 10"
    and "10 \<notin> set (open_tail t)" and "13 \<notin> set (open_tail t)"
proof -
  let ?v = "universal_newlines t"
  let ?body = "rev (dropWhile (\<lambda>c. c \<noteq> 10) (rev ?v))"
  have "?body @ open_tail t = ?v"
    unfolding open_tail_def rev_append[symmetric] takeWhile_dropWhile_id by simp
  then have a: "?v = ?body @ open_tail t" by simp
  have b: "?body = [] \<or> last ?body = 10"
  proof (cases "dropWhile (\<lambda>c. c \<noteq> 10) (rev ?v) = []")
    case True
    then show ?thesis by simp
  next
    case False
    from hd_dropWhile[OF False] have "hd (dropWhile (\<lambda>c. c \<noteq> 10) (rev ?v)) = 10" by simp
    with False show ?thesis by (simp add: last_rev)
  qed
  have c: "10 \<notin> set (open_tail t)"
    using set_takeWhileD[of 10 "\<lambda>c. c \<noteq> 10" "rev ?v"] by (auto simp: open_tail_def)
  have "set (open_tail t) \<subseteq> set ?v"
    using set_takeWhileD[of _ "\<lambda>c. c \<noteq> 10" "rev ?v"] by (auto simp: open_tail_def)
  with universal_newlines_no_cr[of t] have d: "13 \<notin> set (open_tail t)" by blast
  from a b c d that show thesis by blast
qed

lemma full_line_prefixed:
  "full_line l \<Longrightarrow> 10 \<notin> set p \<Longrightarrow> 13 \<notin> set p \<Longrightarrow> full_line (p @ l)"
  by (auto simp: full_line_def butlast_append)

lemma readlines_append_open:
  assumes "full_line l" and "hd l \<noteq> 10"
  obtains ls0 where
    "readlines t = ls0 @ (if open_tail t = [] then [] else [open_tail t])"
    and "readlines (t @ l) = ls0 @ [open_tail t @ l]"
proof -
  from assms(1) have l: "l \<noteq> []" "13 \<notin> set l" by (simp_all add: full_line_def)
  obtain body where v: "universal_newlines t = body @ open_tail t"
    and b: "body = [] \<or> last body = 10"
    and p: "10 \<notin> set (open_tail t)" "13 \<notin> set (open_tail t)"
    by (rule open_tail_split)
  have u: "universal_newlines (t @ l) = body @ open_tail t @ l"
    using universal_newlines_append_start[OF l(1) assms(2), of t]
    by (simp add: universal_newlines_id[OF l(2)] v)
  have t1: "split_lines (open_tail t) = (if open_tail t = [] then [] else [open_tail t])"
    using p(1) by (simp add: split_lines_part)
  have t2: "split_lines (open_tail t @ l) = [open_tail t @ l]"
    by (rule split_lines_full_line[OF full_line_prefixed[OF assms(1) p]])
  have r1: "readlines t = split_lines body @ (if open_tail t = [] then [] else [open_tail t])"
    unfolding readlines_def v using split_lines_append[OF b, of "open_tail t"] t1 by simp
  have r2: "readlines (t @ l) = split_lines body @ [open_tail t @ l]"
    unfolding readlines_def u using split_lines_append[OF b, of "open_tail t @ l"] t2 by simp
  from r1 r2 that show thesis by blast
qed

lemma valid_agents_str: "r \<in> set valid_agents \<Longrightarrow> is_str r \<and> join_surrogates r = r"
  by (simp add: valid_agents_text is_str_valid join_surrogates_valid)

lemma send_then_receive_text:
  assumes "r \<in> set valid_agents"
    and "is_str s" and "is_str c" and "is_str now"
    and "appendable f" and "0 < limit"
    and "fst (get_new_messages r s limit f) = Inr prior" and "int (length prior) < limit"
  shows "fst (get_new_messages r s limit (snd (send_message r c s now f)))
           = Inr (if join_surrogates s = s
                  then prior @ [record_message (join_surrogates c) (join_surrogates now)]
                  else prior)"
proof -
  let ?line = "record_line r c s now"
  let ?p = "open_tail (log_text f)"
  let ?m = "record_message (join_surrogates c) (join_surrogates now)"
  from assms(5) have ws: "list_all json_ws ?p" by (simp add: appendable_def)
  have hd: "hd ?line \<noteq> 10" by (simp add: record_line_Cons)
  obtain ls0 where
    r1: "readlines (log_text f) = ls0 @ (if ?p = [] then [] else [?p])" and
    r2: "readlines (log_text f @ ?line) = ls0 @ [?p @ ?line]"
    by (rule readlines_append_open[OF record_line_full hd])
  from assms(7) assms(1) obtain ms where
    ms: "outcome r s (log_lines f) = Inr ms" and
    prior: "prior = (if ms \<noteq> [] then py_slice_from (- limit) ms else [])"
    by (auto simp: fst_get_new_messages split: sum.splits)
  have o0: "outcome r s ls0 = Inr ms"
  proof (cases "?p = []")
    case True
    with ms r1 show ?thesis by (simp add: log_lines_text)
  next
    case False
    with ms r1 have "outcome r s (ls0 @ [?p]) = Inr ms" by (simp add: log_lines_text)
    then show ?thesis
      by (simp add: outcome_append outcome_blank[OF ws_blank[OF ws]] split: sum.splits)
  qed
  from valid_agents_str[OF assms(1)] have rs: "is_str r" "join_surrogates r = r" by simp_all
  have ll: "log_lines (Some (log_text f @ ?line)) = ls0 @ [?p @ ?line]"
    using r2 by simp
  show ?thesis
  proof (cases "join_surrogates s = s")
    case False
    have out: "outcome r s (ls0 @ [?p @ ?line]) = Inr ms"
      using o0 outcome_record_line_join[OF rs(1) assms(3) assms(2) assms(4) ws, of r s] False
      by (simp add: outcome_append rs(2))
    show ?thesis
      using assms(1) out prior False
      by (simp add: send_message_valid fst_get_new_messages ll del: log_lines.simps)
  next
    case True
    have pm: "prior = ms"
    proof (cases "ms = []")
      case True
      with prior show ?thesis by simp
    next
      case False
      with prior assms(6) have p: "prior = drop (length ms - nat limit) ms"
        by (simp add: py_slice_from_last)
      with assms(8) assms(6) have "length ms < nat limit" by auto
      with p show ?thesis by simp
    qed
    have out: "outcome r s (ls0 @ [?p @ ?line]) = Inr (ms @ [?m])"
      using o0 outcome_record_line_join[OF rs(1) assms(3) assms(2) assms(4) ws, of r s] True
      by (simp add: outcome_append rs(2))
    have "length (ms @ [?m]) - nat limit = 0"
      using pm assms(8) assms(6) by auto
    then have sl: "py_slice_from (- limit) (ms @ [?m]) = ms @ [?m]"
      using assms(6) by (simp add: py_slice_from_last del: length_append)
    show ?thesis
      using assms(1) out sl pm True
      by (simp add: send_message_valid fst_get_new_messages ll del: log_lines.simps)
  qed
qed

section \<open>A message sent is received\<close>

text \<open>
  Claim C1 says that on any log state, for every session and content, a message sent to a
  valid recipient is in the result of the next receive exactly once, its content
  unchanged. States and inputs where it is not so: a log whose last line lacks its line
  break and is not blank (here \<^verbatim>\<open>xyz\<close>: the record is appended to that line, the line
  does not parse, and the result is empty); a log holding a record addressed to the
  caller without a \<^verbatim>\<open>"content"\<close> member (the receive raises \<^verbatim>\<open>KeyError\<close>); a content
  made of a high and a low surrogate code point (written as two escapes, read back as
  one character); and a session made of the same two code points (the record is stored
  under the joined session and the receive for the session as given returns nothing).
\<close>

theorem send_then_receive_fails:
  "fst (get_new_messages (asc ''trae'') (asc ''default'') 15 (Some (asc ''xyz''))) = Inr [] \<and>
   get_new_messages (asc ''trae'') (asc ''default'') 15
     (snd (send_message (asc ''trae'') (asc ''hi'') (asc ''default'') (asc ''t1'')
             (Some (asc ''xyz''))))
     = (Inr [], Some (asc ''xyz'' @ record_line (asc ''trae'') (asc ''hi'') (asc ''default'')
                        (asc ''t1''))) \<and>
   fst (get_new_messages (asc ''trae'') (asc ''default'') 15
     (snd (send_message (asc ''trae'') (asc ''hi'') (asc ''default'') (asc ''t1'')
             (Some (asc ''{\"to\": \"trae\", \"session\": \"default\"}'' @ [10])))))
     = Inl (KeyError (asc ''content'')) \<and>
   fst (get_new_messages (asc ''trae'') (asc ''default'') 15
     (snd (send_message (asc ''trae'') [55357, 56832] (asc ''default'') (asc ''t1'')
             (Some []))))
     = Inr [record_message [128512] (asc ''t1'')] \<and>
   fst (get_new_messages (asc ''trae'') [55357, 56832] 15
     (snd (send_message (asc ''trae'') (asc ''hi'') [55357, 56832] (asc ''t1'')
             (Some []))))
     = Inr []"
  by (simp add: relay_eval record_line_def record_message_def)

text \<open>
  Claim C1, amended. For every valid recipient \<open>r\<close>, all Python strings \<open>s\<close> (the session),
  \<open>c\<close> (the content) and clock reading, where neither \<open>s\<close> nor \<open>c\<close> has a high surrogate
  immediately followed by a low surrogate, every positive \<open>limit\<close> (15 by default) and
  every appendable log (one that does not exist, or whose text after the last line break
  is empty or only spaces and tabs) on which a receive for \<open>(r, s)\<close> returns a list
  \<open>prior\<close> of fewer than \<open>limit\<close> messages: after \<^verbatim>\<open>send_message(r, c, s)\<close>, the receive
  for \<open>(r, s)\<close> returns \<open>prior\<close> followed by exactly one more message, whose content is
  \<open>c\<close>.
\<close>

theorem send_then_receive:
  assumes "r \<in> set valid_agents"
    and "is_str s" and "is_str c" and "is_str now"
    and "join_surrogates s = s" and "join_surrogates c = c"
    and "appendable f" and "0 < limit"
    and "fst (get_new_messages r s limit f) = Inr prior" and "int (length prior) < limit"
  shows "fst (get_new_messages r s limit (snd (send_message r c s now f)))
           = Inr (prior @ [record_message c (join_surrogates now)])"
  using send_then_receive_text[OF assms(1) assms(2) assms(3) assms(4) assms(7) assms(8)
      assms(9) assms(10)] assms(5) assms(6)
  by simp

theorem send_then_receive_witness:
  "asc ''trae'' \<in> set valid_agents \<and>
   is_str (asc ''default'') \<and> is_str [104, 55357] \<and> is_str (asc ''t2'') \<and>
   join_surrogates (asc ''default'') = asc ''default'' \<and>
   join_surrogates [104, 55357] = [104, 55357] \<and>
   appendable (Some (record_line (asc ''trae'') (asc ''a'') (asc ''default'') (asc ''t1'')
                       @ asc ''x'' @ [13, 32, 9])) \<and>
   fst (get_new_messages (asc ''trae'') (asc ''default'') 15
          (Some (record_line (asc ''trae'') (asc ''a'') (asc ''default'') (asc ''t1'')
                   @ asc ''x'' @ [13, 32, 9])))
     = Inr [record_message (asc ''a'') (asc ''t1'')] \<and>
   fst (get_new_messages (asc ''trae'') (asc ''default'') 15
          (snd (send_message (asc ''trae'') [104, 55357] (asc ''default'') (asc ''t2'')
             (Some (record_line (asc ''trae'') (asc ''a'') (asc ''default'') (asc ''t1'')
                      @ asc ''x'' @ [13, 32, 9])))))
     = Inr [record_message (asc ''a'') (asc ''t1''), record_message [104, 55357] (asc ''t2'')]"
proof -
  let ?f = "Some (record_line (asc ''trae'') (asc ''a'') (asc ''default'') (asc ''t1'')
                    @ asc ''x'' @ [13, 32, 9])"
  have v: "asc ''trae'' \<in> set valid_agents" by (simp add: asc_def valid_agents_def)
  have t: "is_str (asc ''default'')" "is_str [104, 55357]" "is_str (asc ''t2'')"
    by (simp_all add: is_str_def asc_def)
  have j: "join_surrogates (asc ''default'') = asc ''default''"
    "join_surrogates [104, 55357] = [104, 55357]" "join_surrogates (asc ''t2'') = asc ''t2''"
    by (simp_all add: asc_def high_surrogate_def low_surrogate_def)
  have a: "appendable ?f"
    by (simp add: relay_eval record_line_def appendable_def open_tail_def)
  have p: "fst (get_new_messages (asc ''trae'') (asc ''default'') 15 ?f)
             = Inr [record_message (asc ''a'') (asc ''t1'')]"
    by (simp add: relay_eval record_line_def record_message_def)
  have l: "int (length [record_message (asc ''a'') (asc ''t1'')]) < 15" by simp
  from send_then_receive[OF v t(1) t(2) t(3) j(1) j(2) a _ p l] v t j a p show ?thesis by simp
qed

section \<open>At most once\<close>

lemma lines_ok_full: "list_all full_line ls \<Longrightarrow> lines_ok ls"
  by (induction ls) (auto simp: lines_ok_Cons)

lemma readlines_records: "readlines (concat (map line_of ps)) = map line_of ps"
proof -
  have "list_all full_line (map line_of ps)"
    by (induction ps) (auto simp: record_line_full)
  from readlines_concat[OF lines_ok_full[OF this]] show ?thesis .
qed

lemma scan_lines_records:
  "list_all wf_record ps \<Longrightarrow>
     scan_lines r s (map line_of ps) [] [] =
       Inr (map message_of (filter (for_pair r s) ps),
            map line_of (filter (\<lambda>p. \<not> for_pair r s p) ps))"
proof (induction ps)
  case Nil
  then show ?case by simp
next
  case (Cons p ps)
  obtain to c se now where p: "p = (to, c, se, now)" by (cases p)
  from Cons.prems p have wf: "valid_text to" "valid_text c" "valid_text se" "valid_text now"
    by (simp_all add: valid_agents_text)
  from Cons have ih: "scan_lines r s (map line_of ps) [] [] =
       Inr (map message_of (filter (for_pair r s) ps),
            map line_of (filter (\<lambda>p. \<not> for_pair r s p) ps))" by simp
  show ?case
    using scan_lines_Cons[of r s "line_of p" "map line_of ps"]
    by (simp add: p ih scan_line_record_line[OF wf])
qed

lemma get_new_messages_records:
  assumes "list_all wf_record ps" and "r \<in> set valid_agents"
  shows "\<exists>k. get_new_messages r s limit (Some (concat (map line_of ps))) =
           (Inr (drop k (map message_of (filter (for_pair r s) ps))),
            Some (concat (map line_of (filter (\<lambda>p. \<not> for_pair r s p) ps))))"
proof -
  let ?ms = "map message_of (filter (for_pair r s) ps)"
  have "\<exists>k. (if ?ms \<noteq> [] then py_slice_from (- limit) ?ms else []) = drop k ?ms"
    by (cases "?ms = []") (auto simp: py_slice_from_def Let_def simp del: filter.simps)
  then obtain k where k: "(if ?ms \<noteq> [] then py_slice_from (- limit) ?ms else []) = drop k ?ms"
    by blast
  have "get_new_messages r s limit (Some (concat (map line_of ps))) =
           (Inr (drop k ?ms), Some (concat (map line_of (filter (\<lambda>p. \<not> for_pair r s p) ps))))"
    using assms(2) k
    by (simp add: get_new_messages_def readlines_records scan_lines_records[OF assms(1)]
          run_rewrite_ops)
  then show ?thesis by blast
qed

lemma send_message_records:
  assumes "to \<in> set valid_agents"
  shows "snd (send_message to c se now (Some (concat (map line_of ps)))) =
           Some (concat (map line_of (ps @ [(to, c, se, now)])))"
  by (simp add: send_message_valid[OF assms])

lemma delivery_of_for_pair:
  "map (\<lambda>m. (r, s, m)) (map message_of (filter (for_pair r s) ps)) =
     map delivery_of (filter (for_pair r s) ps)"
  by (induction ps) auto

lemma mset_drop_subset: "mset (drop k xs) \<subseteq># mset xs"
proof -
  have "mset xs = mset (take k xs) + mset (drop k xs)"
    by (metis append_take_drop_id mset_append)
  then show ?thesis by simp
qed

lemma run_invariant:
  "list_all valid_op ops \<Longrightarrow> list_all wf_record ps \<Longrightarrow>
     mset (snd (run ops (Some (concat (map line_of ps))) d))
       \<subseteq># mset d + mset (map delivery_of ps) + mset (sent ops)"
proof (induction ops arbitrary: ps d)
  case Nil
  then show ?case by simp
next
  case (Cons x ops)
  from Cons.prems have vo: "list_all valid_op ops" by simp
  show ?case
  proof (cases x)
    case (Send to c se now)
    show ?thesis
    proof (cases "to \<in> set valid_agents")
      case True
      with Cons.prems Send have wf: "list_all wf_record (ps @ [(to, c, se, now)])" by simp
      from Cons.IH[OF vo wf, of d] Send True show ?thesis
        by (simp add: send_message_records[OF True])
    next
      case False
      with Cons.IH[OF vo Cons.prems(2), of d] Send show ?thesis
        by (simp add: send_message_def)
    qed
  next
    case (Receive r s limit)
    show ?thesis
    proof (cases "r \<in> set valid_agents")
      case False
      with Cons.IH[OF vo Cons.prems(2), of d] Receive show ?thesis
        by (simp add: get_new_messages_def)
    next
      case True
      let ?yes = "filter (for_pair r s) ps"
      let ?no = "filter (\<lambda>p. \<not> for_pair r s p) ps"
      from get_new_messages_records[OF Cons.prems(2) True, of s limit] obtain k where
        g: "get_new_messages r s limit (Some (concat (map line_of ps))) =
              (Inr (drop k (map message_of ?yes)), Some (concat (map line_of ?no)))"
        by blast
      let ?new = "map (\<lambda>m. (r, s, m)) (drop k (map message_of ?yes))"
      from Cons.prems(2) have wf: "list_all wf_record ?no" by (simp add: list_all_iff)
      from Cons.IH[OF vo wf, of "d @ ?new"]
      have ih: "mset (snd (run ops (Some (concat (map line_of ?no))) (d @ ?new)))
                  \<subseteq># mset d + mset ?new + mset (map delivery_of ?no) + mset (sent ops)"
        by simp
      have "?new = drop k (map delivery_of ?yes)"
        by (simp add: drop_map[symmetric] delivery_of_for_pair del: map_map)
      then have "mset ?new \<subseteq># mset (map delivery_of ?yes)"
        using mset_drop_subset[of k "map delivery_of ?yes"] by simp
      moreover have "mset (map delivery_of ?yes) + mset (map delivery_of ?no)
                       = mset (map delivery_of ps)"
        by (induction ps) auto
      ultimately have "mset ?new + mset (map delivery_of ?no) \<subseteq># mset (map delivery_of ps)"
        by (metis subset_mset.add_right_mono)
      then have "mset d + mset ?new + mset (map delivery_of ?no) + mset (sent ops)
                   \<subseteq># mset d + mset (map delivery_of ps) + mset (sent ops)"
        by (simp add: add.assoc)
      with ih have "mset (snd (run ops (Some (concat (map line_of ?no))) (d @ ?new)))
                  \<subseteq># mset d + mset (map delivery_of ps) + mset (sent ops)"
        by (rule subset_mset.order_trans)
      with Receive g show ?thesis by simp
    qed
  qed
qed

lemma second_receive_empty:
  assumes "fst (get_new_messages r s limit f) = Inr ms"
  shows "get_new_messages r s limit' (snd (get_new_messages r s limit f))
           = (Inr [], snd (get_new_messages r s limit f))"
proof (cases "r \<in> set valid_agents")
  case False
  then show ?thesis by (simp add: get_new_messages_def)
next
  case True
  show ?thesis
  proof (cases f)
    case None
    then show ?thesis by (simp add: get_new_messages_def)
  next
    case (Some t)
    show ?thesis
    proof (cases "scan_lines r s (readlines t) [] []")
      case (Inl e)
      with assms Some True show ?thesis by (simp add: get_new_messages_def)
    next
      case (Inr p)
      obtain ms' ns where p: "p = (ms', ns)" by (cases p)
      let ?kept = "filter (keeps r s) (readlines t)"
      from get_new_messages_done(1)[OF True Inr[unfolded p], of limit] Some
      have st: "snd (get_new_messages r s limit f) = Some (concat ?kept)" by simp
      have "get_new_messages r s limit' (Some (concat ?kept)) = (Inr [], Some (concat ?kept))"
        using True
        by (simp add: get_new_messages_def readlines_rewritten scan_lines_kept_again
              run_rewrite_ops del: filter_filter)
      with st show ?thesis by simp
    qed
  qed
qed

lemma addressed_not_keeps: "addressed r s l \<Longrightarrow> \<not> keeps r s l"
  by (auto simp: addressed_def keeps_def blank_def scan_line_def split: sum.splits)

lemma filter_addressed_kept: "filter (addressed r s) (filter (keeps r s) ls) = []"
  by (induction ls) (auto simp: addressed_not_keeps)

lemma receive_removes_addressed:
  assumes "r \<in> set valid_agents" and "fst (get_new_messages r s limit f) = Inr ms"
  shows "filter (addressed r s) (log_lines (snd (get_new_messages r s limit f))) = []"
proof (cases f)
  case None
  then show ?thesis by (simp add: get_new_messages_def)
next
  case (Some t)
  show ?thesis
  proof (cases "scan_lines r s (readlines t) [] []")
    case (Inl e)
    with assms Some show ?thesis by (simp add: get_new_messages_def)
  next
    case (Inr p)
    obtain ms' ns where p: "p = (ms', ns)" by (cases p)
    from get_new_messages_done(1)[OF assms(1) Inr[unfolded p], of limit] Some
    show ?thesis by (simp del: filter_filter add: readlines_rewritten filter_addressed_kept)
  qed
qed

lemma scan_lines_lengths:
  "scan_lines a s ls [] [] = Inr (ms, ns) \<Longrightarrow> length ms + length ns \<le> length ls"
proof (induction ls arbitrary: ms ns)
  case Nil
  then show ?case by simp
next
  case (Cons l ls)
  from Cons.prems obtain m1 n1 m2 n2 where
    l: "scan_line a s l [] [] = Inr (m1, n1)" and
    r: "scan_lines a s ls [] [] = Inr (m2, n2)" and
    e: "ms = m1 @ m2" "ns = n1 @ n2"
    unfolding scan_lines_Cons by (auto split: sum.splits)
  from scan_line_shape[OF l] have "length m1 + length n1 \<le> 1" by auto
  with Cons.IH[OF r] e show ?case by simp
qed

lemma length_py_slice_from: "length (py_slice_from k xs) \<le> length xs"
  by (simp add: py_slice_from_def Let_def)

lemma run_count:
  "list_all full_line ls \<Longrightarrow>
     length (snd (run ops (Some (concat ls)) d)) \<le> length d + length ls + length (sent ops)"
proof (induction ops arbitrary: ls d)
  case Nil
  then show ?case by simp
next
  case (Cons x ops)
  show ?case
  proof (cases x)
    case (Send to c se now)
    show ?thesis
    proof (cases "to \<in> set valid_agents")
      case True
      from Cons.prems have "list_all full_line (ls @ [record_line to c se now])"
        by (simp add: record_line_full)
      from Cons.IH[OF this, of d] Send True show ?thesis
        by (simp add: send_message_valid)
    next
      case False
      with Cons.IH[OF Cons.prems, of d] Send show ?thesis by (simp add: send_message_def)
    qed
  next
    case (Receive r s limit)
    show ?thesis
    proof (cases "r \<in> set valid_agents")
      case False
      with Cons.IH[OF Cons.prems, of d] Receive show ?thesis
        by (simp add: get_new_messages_def)
    next
      case True
      have rl: "readlines (concat ls) = ls"
        by (rule readlines_concat[OF lines_ok_full[OF Cons.prems]])
      show ?thesis
      proof (cases "scan_lines r s ls [] []")
        case (Inl e)
        with Cons.IH[OF Cons.prems, of d] Receive True rl show ?thesis
          by (simp add: get_new_messages_def)
      next
        case (Inr p)
        obtain ms ns where p: "p = (ms, ns)" by (cases p)
        let ?res = "if ms \<noteq> [] then py_slice_from (- limit) ms else []"
        from Inr p rl True have g: "get_new_messages r s limit (Some (concat ls)) =
            (Inr ?res, Some (concat ns))"
          by (simp add: get_new_messages_def run_rewrite_ops)
        from scan_lines_result[OF Inr[unfolded p]] have ns: "ns = filter (keeps r s) ls"
          by simp
        with Cons.prems have fl: "list_all full_line ns" by (simp add: list_all_iff)
        have "length ?res \<le> length ms" by (simp add: length_py_slice_from)
        with scan_lines_lengths[OF Inr[unfolded p]]
        have le: "length ?res + length ns \<le> length ls" by linarith
        from Cons.IH[OF fl, of "d @ map (\<lambda>m. (r, s, m)) ?res"]
        have "length (snd (run ops (Some (concat ns)) (d @ map (\<lambda>m. (r, s, m)) ?res)))
                \<le> length d + length ?res + length ns + length (sent ops)"
          by simp
        with le have "length (snd (run ops (Some (concat ns)) (d @ map (\<lambda>m. (r, s, m)) ?res)))
                \<le> length d + length ls + length (sent ops)"
          by linarith
        with Receive g show ?thesis by simp
      qed
    qed
  qed
qed

text \<open>
  Claim C2. Over every finite sequence of sends and receives that starts from the empty
  log: when the texts sent are well-formed, the messages the receives return are, counted
  with multiplicity, among the messages sent, so no message is returned more often than
  it was sent and a message that one receive returned is returned by no later one; and
  whatever the texts, the receives never return more messages than were sent. On every
  log, when a receive for a valid recipient \<open>r\<close> and a session \<open>s\<close> returns a list, no
  line addressed to \<open>(r, s)\<close> is left in the log, and the same receive called again at
  once returns the empty list and leaves the log as the first call left it.
\<close>

theorem at_most_once_delivery:
  "(list_all valid_op ops \<longrightarrow> mset (snd (run ops (Some []) [])) \<subseteq># mset (sent ops)) \<and>
   length (snd (run ops (Some []) [])) \<le> length (sent ops) \<and>
   (r \<in> set valid_agents \<and> fst (get_new_messages r s limit f) = Inr ms \<longrightarrow>
      filter (addressed r s) (log_lines (snd (get_new_messages r s limit f))) = []) \<and>
   (fst (get_new_messages r s limit f) = Inr ms \<longrightarrow>
      get_new_messages r s limit' (snd (get_new_messages r s limit f))
        = (Inr [], snd (get_new_messages r s limit f)))"
proof (intro conjI impI)
  assume "list_all valid_op ops"
  from run_invariant[OF this, of "[]" "[]"]
  show "mset (snd (run ops (Some []) [])) \<subseteq># mset (sent ops)" by simp
next
  from run_count[of "[]" ops "[]"]
  show "length (snd (run ops (Some []) [])) \<le> length (sent ops)" by simp
next
  assume "r \<in> set valid_agents \<and> fst (get_new_messages r s limit f) = Inr ms"
  then show "filter (addressed r s) (log_lines (snd (get_new_messages r s limit f))) = []"
    using receive_removes_addressed[of r s limit f ms] by blast
next
  assume "fst (get_new_messages r s limit f) = Inr ms"
  then show "get_new_messages r s limit' (snd (get_new_messages r s limit f))
        = (Inr [], snd (get_new_messages r s limit f))"
    by (rule second_receive_empty)
qed

theorem at_most_once_delivery_witness:
  "list_all valid_op [Send (asc ''trae'') (asc ''hi'') (asc ''default'') (asc ''t1''),
                      Receive (asc ''trae'') (asc ''default'') 15,
                      Receive (asc ''trae'') (asc ''default'') 15] \<and>
   snd (run [Send (asc ''trae'') (asc ''hi'') (asc ''default'') (asc ''t1''),
             Receive (asc ''trae'') (asc ''default'') 15,
             Receive (asc ''trae'') (asc ''default'') 15] (Some []) [])
     = [(asc ''trae'', asc ''default'', record_message (asc ''hi'') (asc ''t1''))] \<and>
   mset (snd (run [Send (asc ''trae'') (asc ''hi'') (asc ''default'') (asc ''t1''),
             Receive (asc ''trae'') (asc ''default'') 15,
             Receive (asc ''trae'') (asc ''default'') 15] (Some []) []))
     \<subseteq># mset (sent [Send (asc ''trae'') (asc ''hi'') (asc ''default'') (asc ''t1''),
             Receive (asc ''trae'') (asc ''default'') 15,
             Receive (asc ''trae'') (asc ''default'') 15]) \<and>
   asc ''trae'' \<in> set valid_agents \<and>
   fst (get_new_messages (asc ''trae'') (asc ''default'') 15
          (snd (send_message (asc ''trae'') (asc ''hi'') (asc ''default'') (asc ''t1'')
                  (Some []))))
     = Inr [record_message (asc ''hi'') (asc ''t1'')] \<and>
   filter (addressed (asc ''trae'') (asc ''default''))
     (log_lines (snd (get_new_messages (asc ''trae'') (asc ''default'') 15
          (snd (send_message (asc ''trae'') (asc ''hi'') (asc ''default'') (asc ''t1'')
                  (Some [])))))) = [] \<and>
   get_new_messages (asc ''trae'') (asc ''default'') 15
     (snd (get_new_messages (asc ''trae'') (asc ''default'') 15
          (snd (send_message (asc ''trae'') (asc ''hi'') (asc ''default'') (asc ''t1'')
                  (Some [])))))
     = (Inr [], snd (get_new_messages (asc ''trae'') (asc ''default'') 15
          (snd (send_message (asc ''trae'') (asc ''hi'') (asc ''default'') (asc ''t1'')
                  (Some [])))))"
proof -
  let ?ops = "[Send (asc ''trae'') (asc ''hi'') (asc ''default'') (asc ''t1''),
               Receive (asc ''trae'') (asc ''default'') 15,
               Receive (asc ''trae'') (asc ''default'') 15]"
  let ?f = "snd (send_message (asc ''trae'') (asc ''hi'') (asc ''default'') (asc ''t1'')
                  (Some []))"
  have v: "list_all valid_op ?ops" by (simp add: valid_text_def scalar_def asc_def)
  have r: "snd (run ?ops (Some []) [])
     = [(asc ''trae'', asc ''default'', record_message (asc ''hi'') (asc ''t1''))]"
    by (simp add: relay_eval record_message_def)
  have g: "fst (get_new_messages (asc ''trae'') (asc ''default'') 15 ?f)
     = Inr [record_message (asc ''hi'') (asc ''t1'')]"
    by (simp add: relay_eval record_message_def)
  have a: "asc ''trae'' \<in> set valid_agents" by (simp add: asc_def valid_agents_def)
  from at_most_once_delivery[of ?ops "asc ''trae''" "asc ''default''" 15 ?f
      "[record_message (asc ''hi'') (asc ''t1'')]" 15] v g a
  have "mset (snd (run ?ops (Some []) [])) \<subseteq># mset (sent ?ops)"
    and "filter (addressed (asc ''trae'') (asc ''default''))
           (log_lines (snd (get_new_messages (asc ''trae'') (asc ''default'') 15 ?f))) = []"
    and "get_new_messages (asc ''trae'') (asc ''default'') 15
           (snd (get_new_messages (asc ''trae'') (asc ''default'') 15 ?f))
         = (Inr [], snd (get_new_messages (asc ''trae'') (asc ''default'') 15 ?f))"
    by blast+
  with v r g a show ?thesis by blast
qed

section \<open>Invalid recipients\<close>

text \<open>
  Claim C4. For every recipient outside \<^verbatim>\<open>("trae", "kilo", "grok")\<close>, every content and
  every session, \<^verbatim>\<open>send_message\<close> returns the error string
  \<^verbatim>\<open>ERROR: to must be 'trae', 'kilo', or 'grok'\<close> (the relay's report of an invalid
  recipient, which no confirmation string equals) and leaves the log exactly as it was:
  nothing is appended and nothing else changes.
\<close>

theorem send_invalid_recipient:
  "to \<notin> set valid_agents \<Longrightarrow>
     send_message to content session now f = (send_error, f) \<and>
     (\<forall>t s. send_error \<noteq> send_confirmation t s)"
  by (simp add: send_message_def send_error_def send_confirmation_def asc_def)

theorem send_invalid_recipient_witness:
  "asc ''bob'' \<notin> set valid_agents \<and>
   send_message (asc ''bob'') (asc ''hi'') (asc ''default'') (asc ''2026-01-01T00:00:00'')
       (Some (asc ''x'' @ [10]))
     = (send_error, Some (asc ''x'' @ [10])) \<and>
   (\<forall>t s. send_error \<noteq> send_confirmation t s)"
  using send_invalid_recipient[of "asc ''bob''" "asc ''hi''" "asc ''default''"
      "asc ''2026-01-01T00:00:00''" "Some (asc ''x'' @ [10])"]
  by (simp add: asc_def valid_agents_def)

text \<open>
  Claim C9 says that both operations answer an invalid recipient with an explicit error.
  \<^verbatim>\<open>get_new_messages\<close> does not: its guard returns the empty list, which is also what a
  valid recipient with no pending message gets.
\<close>

theorem receive_invalid_recipient_silent:
  "get_new_messages (asc ''bob'') (asc ''default'') 15 (Some []) = (Inr [], Some []) \<and>
   get_new_messages (asc ''trae'') (asc ''default'') 15 (Some []) = (Inr [], Some [])"
  by (simp add: relay_eval)

text \<open>
  Claim C9, amended. For every recipient outside the valid set, \<^verbatim>\<open>send_message\<close> returns
  the explicit error string, and \<^verbatim>\<open>get_new_messages\<close> returns the empty list; neither
  changes the log.
\<close>

theorem invalid_recipient_results:
  "r \<notin> set valid_agents \<Longrightarrow>
     send_message r content session now f = (send_error, f) \<and>
     get_new_messages r session limit f = (Inr [], f)"
  by (simp add: send_message_def get_new_messages_def)

theorem invalid_recipient_results_witness:
  "asc ''bob'' \<notin> set valid_agents \<and>
   send_message (asc ''bob'') (asc ''hi'') (asc ''default'') (asc ''2026-01-01T00:00:00'')
       (Some (asc ''x'' @ [10]))
     = (send_error, Some (asc ''x'' @ [10])) \<and>
   get_new_messages (asc ''bob'') (asc ''default'') 15 (Some (asc ''x'' @ [10]))
     = (Inr [], Some (asc ''x'' @ [10]))"
  using invalid_recipient_results[of "asc ''bob''" "asc ''hi''" "asc ''default''"
      "asc ''2026-01-01T00:00:00''" "Some (asc ''x'' @ [10])" 15]
  by (simp add: asc_def valid_agents_def)

section \<open>Exceptions that leave \<^verbatim>\<open>get_new_messages\<close>\<close>

text \<open>
  Claim C8 says that no exception crosses the tool boundary, whatever the log holds. The
  loop catches \<^verbatim>\<open>json.JSONDecodeError\<close> only. A line that parses to an object addressed
  to the caller but without a \<^verbatim>\<open>"content"\<close> member raises \<^verbatim>\<open>KeyError\<close>, and a line that
  parses to a value that is not an object raises \<^verbatim>\<open>AttributeError\<close>; either leaves the
  function, with the log untouched, so every later call meets the same line.
\<close>

theorem receive_raises_on_record_without_content:
  "get_new_messages (asc ''trae'') (asc ''default'') 15
     (Some (asc ''{\"to\": \"trae\", \"session\": \"default\"}'' @ [10]))
   = (Inl (KeyError (asc ''content'')),
      Some (asc ''{\"to\": \"trae\", \"session\": \"default\"}'' @ [10])) \<and>
   get_new_messages (asc ''trae'') (asc ''default'') 15 (Some (asc ''42'' @ [10]))
   = (Inl AttributeError, Some (asc ''42'' @ [10]))"
  by (simp add: relay_eval)

section \<open>The limit\<close>

text \<open>
  With a positive limit, a receive that returns a list returns the last \<open>limit\<close> of the
  messages the lines of the log yield for \<open>(r, s)\<close>, in the order of the log, and no line
  left in the log yields a message for \<open>(r, s)\<close>.
\<close>

lemma yield_kept: "concat (map (yield r s) (filter (keeps r s) ls)) = []"
  by (induction ls) (auto simp: keeps_def yield_def)

lemma receive_limit_positive:
  assumes "r \<in> set valid_agents" and "0 < limit"
    and "scan_lines r s (readlines t) [] [] = Inr (ms, ns)"
  shows "fst (get_new_messages r s limit (Some t)) = Inr (drop (length ms - nat limit) ms)"
    and "length (drop (length ms - nat limit) ms) \<le> nat limit"
    and "ms = concat (map (yield r s) (readlines t))"
    and "log_lines (snd (get_new_messages r s limit (Some t))) = filter (keeps r s) (readlines t)"
    and "concat (map (yield r s) (log_lines (snd (get_new_messages r s limit (Some t))))) = []"
proof -
  from get_new_messages_done(1)[OF assms(1) assms(3), of limit] assms(2)
  show "fst (get_new_messages r s limit (Some t)) = Inr (drop (length ms - nat limit) ms)"
    by (simp add: py_slice_from_last)
  from get_new_messages_done(2)[OF assms(1) assms(3)]
  show "ms = concat (map (yield r s) (readlines t))" .
  from get_new_messages_done(1)[OF assms(1) assms(3), of limit]
  show l: "log_lines (snd (get_new_messages r s limit (Some t))) = filter (keeps r s) (readlines t)"
    by (simp add: readlines_rewritten)
  show "length (drop (length ms - nat limit) ms) \<le> nat limit" by simp
  show "concat (map (yield r s) (log_lines (snd (get_new_messages r s limit (Some t))))) = []"
    unfolding l by (rule yield_kept)
qed

text \<open>
  Claim C3 says that the result holds at most \<open>limit\<close> messages. The slice
  \<^verbatim>\<open>messages[-limit:]\<close> is the whole list when \<open>limit\<close> is 0: one pending message and
  \<open>limit = 0\<close> give a result of one message.
\<close>

theorem limit_zero_returns_every_match:
  "get_new_messages (asc ''trae'') (asc ''default'') 0
     (snd (send_message (asc ''trae'') (asc ''hi'') (asc ''default'')
             (asc ''2026-01-01T00:00:00'') (Some [])))
   = (Inr [\<lparr>msg_from = asc ''the-other-agent'', msg_content = JString (asc ''hi''),
             msg_timestamp = JString (asc ''2026-01-01T00:00:00'')\<rparr>], Some [])"
  by (simp add: relay_eval)

section \<open>The rewrite of the log\<close>





section \<open>Blank and malformed lines\<close>





section \<open>Receiving for one pair leaves the other pairs alone\<close>

text \<open>
  Claim C6. For every log and every call of \<^verbatim>\<open>get_new_messages\<close> for \<open>(r, s)\<close>, and every
  other pair \<open>(r', s')\<close> (another recipient or another session): the lines addressed to
  \<open>(r', s')\<close> are the same lines in the same order after the call as before it, and a
  later call for \<open>(r', s')\<close> returns exactly what it would have returned before.
\<close>

theorem unrelated_receive_frame:
  "(r', s') \<noteq> (r, s) \<Longrightarrow>
     fst (get_new_messages r' s' lim' (snd (get_new_messages r s lim f)))
       = fst (get_new_messages r' s' lim' f) \<and>
     filter (addressed r' s') (log_lines (snd (get_new_messages r s lim f)))
       = filter (addressed r' s') (log_lines f)"
proof -
  assume ne: "(r', s') \<noteq> (r, s)"
  from log_lines_after[of r s lim f] show ?thesis
  proof
    assume "log_lines (snd (get_new_messages r s lim f)) = log_lines f"
    then show ?thesis by (simp add: fst_get_new_messages)
  next
    assume "r \<in> set valid_agents \<and> (\<exists>t ms ns. f = Some t \<and>
       scan_lines r s (readlines t) [] [] = Inr (ms, ns) \<and>
       snd (get_new_messages r s lim f) = Some (concat (filter (keeps r s) (readlines t))) \<and>
       log_lines (snd (get_new_messages r s lim f)) = filter (keeps r s) (log_lines f))"
    then obtain t ms ns where f: "f = Some t" and
      sc: "scan_lines r s (readlines t) [] [] = Inr (ms, ns)" and
      ll: "log_lines (snd (get_new_messages r s lim f)) = filter (keeps r s) (log_lines f)"
      by blast
    from outcome_filter_keeps[OF sc ne] f
    have "outcome r' s' (filter (keeps r s) (log_lines f)) = outcome r' s' (log_lines f)"
      by simp
    with ll filter_addressed_keeps[OF ne, of "log_lines f"] show ?thesis
      by (simp add: fst_get_new_messages)
  qed
qed

theorem unrelated_receive_frame_witness:
  "(asc ''kilo'', asc ''default'') \<noteq> (asc ''trae'', asc ''default'') \<and>
   fst (get_new_messages (asc ''kilo'') (asc ''default'') 15
     (snd (get_new_messages (asc ''trae'') (asc ''default'') 15
       (snd (send_message (asc ''kilo'') (asc ''yo'') (asc ''default'') (asc ''t2'')
         (snd (send_message (asc ''trae'') (asc ''hi'') (asc ''default'') (asc ''t1'')
                 (Some []))))))))
     = Inr [\<lparr>msg_from = asc ''the-other-agent'', msg_content = JString (asc ''yo''),
             msg_timestamp = JString (asc ''t2'')\<rparr>]"
proof -
  let ?f = "snd (send_message (asc ''kilo'') (asc ''yo'') (asc ''default'') (asc ''t2'')
         (snd (send_message (asc ''trae'') (asc ''hi'') (asc ''default'') (asc ''t1'')
                 (Some []))))"
  have ne: "(asc ''kilo'', asc ''default'') \<noteq> (asc ''trae'', asc ''default'')"
    by (simp add: asc_def)
  have e: "fst (get_new_messages (asc ''kilo'') (asc ''default'') 15 ?f)
     = Inr [\<lparr>msg_from = asc ''the-other-agent'', msg_content = JString (asc ''yo''),
             msg_timestamp = JString (asc ''t2'')\<rparr>]"
    by (simp add: relay_eval)
  from unrelated_receive_frame[OF ne, of 15 15 ?f] e ne show ?thesis by simp
qed

section \<open>Calls of several processes\<close>








end
